theory Spec2Isabelle
  imports Main "HOL-Library.Word"
begin

section \<open>Solidity value types and errors\<close>

text \<open>
  The contract \<open>SecretSanta\<close> (Solidity 0.8.24) is embedded function by function.
  Unsigned integers are machine words; arithmetic on \<open>uint256\<close> is checked, as in
  Solidity 0.8, and an overflow, a division by zero or an array read out of range
  reverts with a panic code (0x11 = 17, 0x12 = 18, 0x32 = 50).
  A mapping is a sm function whose default value is zero, as in Solidity.
  A revert is the left summand of the result; the state is then the one before the call.
\<close>

type_synonym address = "160 word"
type_synonym uint256 = "256 word"
type_synonym uint64 = "64 word"
type_synonym uint32 = "32 word"
type_synonym bytes = "8 word list"

datatype error =
    OnlyOwner
  | InvalidPhase
  | DeadlinePassed
  | DeadlineNotReached
  | AlreadyRegistered
  | NotRegistered
  | GameFull
  | IncorrectEntryFee
  | InsufficientParticipants
  | AlreadySubmittedGift
  | NotEnoughParticipants
  | Require string
  | Panic nat
  | FHE_DivisionByZero
  | FHE_InvalidProof

definition checked_add :: "uint256 \<Rightarrow> uint256 \<Rightarrow> error + uint256" where
  "checked_add a b = (if unat a + unat b < 2 ^ 256 then Inr (a + b) else Inl (Panic 17))"

definition checked_sub :: "uint256 \<Rightarrow> uint256 \<Rightarrow> error + uint256" where
  "checked_sub a b = (if b \<le> a then Inr (a - b) else Inl (Panic 17))"

definition checked_mod :: "uint256 \<Rightarrow> uint256 \<Rightarrow> error + uint256" where
  "checked_mod a b = (if b = 0 then Inl (Panic 18) else Inr (a mod b))"

text \<open>\<open>participants[i]\<close> on a storage array: a read past the end panics.\<close>

definition array_get :: "address list \<Rightarrow> uint256 \<Rightarrow> error + address" where
  "array_get xs i = (if unat i < length xs then Inr (xs ! unat i) else Inl (Panic 50))"

section \<open>The confidential value abstraction\<close>

text \<open>
  Modelled from the spec: the FHE library (\<open>@fhevm/solidity\<close>) is an external dependency
  whose code is not part of the repository. An encrypted integer is represented by its
  plaintext, and the operations the contract calls (\<open>asEuint32\<close>, \<open>add\<close>, \<open>rem\<close> by a
  plaintext, \<open>eq\<close>, \<open>select\<close>) compute on that plaintext: addition of \<open>euint32\<close> wraps
  at 32 bits, \<open>select\<close> receives both alternatives already computed, and \<open>rem\<close> by the
  plaintext 0 reverts. The access-control list that \<open>FHE.allow\<close> and \<open>FHE.allowThis\<close>
  update is kept by the library and read by no function of this contract; it is left out.
\<close>

type_synonym euint32 = "32 word"
type_synonym euint64 = "64 word"
type_synonym ebool = bool
type_synonym externalEuint64 = "256 word"

definition FHE_asEuint32 :: "uint32 \<Rightarrow> euint32" where
  "FHE_asEuint32 v = v"

definition FHE_add :: "euint32 \<Rightarrow> euint32 \<Rightarrow> euint32" where
  "FHE_add a b = a + b"

definition FHE_rem :: "euint32 \<Rightarrow> uint32 \<Rightarrow> error + euint32" where
  "FHE_rem a b = (if b = 0 then Inl FHE_DivisionByZero else Inr (a mod b))"

definition FHE_eq :: "euint32 \<Rightarrow> euint32 \<Rightarrow> ebool" where
  "FHE_eq a b = (a = b)"

definition FHE_select :: "ebool \<Rightarrow> euint32 \<Rightarrow> euint32 \<Rightarrow> euint32" where
  "FHE_select c a b = (if c then a else b)"

section \<open>Contract state\<close>

datatype GamePhase = Registration | Matching | GiftSubmission | WaitingReveal | Revealed

datatype event =
    ParticipantRegistered address uint256
  | PhaseChanged GamePhase uint256
  | MatchingCompleted uint256
  | GiftSubmitted address uint256
  | GameRevealed uint256
  | RecipientRevealed address address

record state =
  owner :: address
  registrationDeadline :: uint256
  giftSubmissionDeadline :: uint256
  revealTime :: uint256
  entryFee :: uint256
  minParticipants :: uint256
  maxParticipants :: uint256
  currentPhase :: GamePhase
  participants :: "address list"
  participantIndex :: "address \<Rightarrow> uint256"
  isParticipant :: "address \<Rightarrow> bool"
  participantCount :: uint256
  encryptedMatchingOffset :: euint32
  matchingGenerated :: bool
  encryptedGiftValues :: "address \<Rightarrow> euint64"
  giftMetadataURIs :: "address \<Rightarrow> string"
  hasSubmittedGift :: "address \<Rightarrow> bool"
  giftsSubmittedCount :: uint256
  revealedRecipients :: "address \<Rightarrow> address"
  revealedGiftValues :: "address \<Rightarrow> uint64"
  revealedOffset :: uint32
  events :: "event list"

section \<open>Constructor\<close>

text \<open>
  \<open>sender\<close> is \<open>msg.sender\<close> and \<open>now\<close> is \<open>block.timestamp\<close>. The three \<open>require\<close>s
  run first; the three deadline additions are checked.
\<close>

definition constructor ::
  "address \<Rightarrow> uint256 \<Rightarrow> uint256 \<Rightarrow> uint256 \<Rightarrow> uint256 \<Rightarrow> uint256 \<Rightarrow> uint256 \<Rightarrow> uint256
     \<Rightarrow> error + state" where
  "constructor sender now registrationPeriod giftSubmissionPeriod revealDelay fee minP maxP =
    (if \<not> 3 \<le> minP then Inl (Require ''Need at least 3 participants'')
     else if \<not> maxP \<le> 256 then Inl (Require ''Max 256 participants'')
     else if \<not> minP \<le> maxP then Inl (Require ''Invalid participant limits'')
     else case checked_add now registrationPeriod of Inl e \<Rightarrow> Inl e | Inr rd \<Rightarrow>
       (case checked_add rd giftSubmissionPeriod of Inl e \<Rightarrow> Inl e | Inr gd \<Rightarrow>
       (case checked_add gd revealDelay of Inl e \<Rightarrow> Inl e | Inr rt \<Rightarrow>
          Inr \<lparr> owner = sender,
                registrationDeadline = rd,
                giftSubmissionDeadline = gd,
                revealTime = rt,
                entryFee = fee,
                minParticipants = minP,
                maxParticipants = maxP,
                currentPhase = Registration,
                participants = [],
                participantIndex = (\<lambda>_. 0),
                isParticipant = (\<lambda>_. False),
                participantCount = 0,
                encryptedMatchingOffset = 0,
                matchingGenerated = False,
                encryptedGiftValues = (\<lambda>_. 0),
                giftMetadataURIs = (\<lambda>_. []),
                hasSubmittedGift = (\<lambda>_. False),
                giftsSubmittedCount = 0,
                revealedRecipients = (\<lambda>_. 0),
                revealedGiftValues = (\<lambda>_. 0),
                revealedOffset = 0,
                events = [PhaseChanged Registration now] \<rparr>)))"

section \<open>Registration\<close>

text \<open>
  \<open>val\<close> is \<open>msg.value\<close>. The contract's balance is kept by the EVM and read by no
  function of the contract; it is not part of the state.
\<close>

definition register :: "address \<Rightarrow> uint256 \<Rightarrow> uint256 \<Rightarrow> state \<Rightarrow> error + state" where
  "register sender val now s =
    (if currentPhase s \<noteq> Registration then Inl InvalidPhase
     else if registrationDeadline s \<le> now then Inl DeadlinePassed
     else if isParticipant s sender then Inl AlreadyRegistered
     else if maxParticipants s \<le> participantCount s then Inl GameFull
     else if val \<noteq> entryFee s then Inl IncorrectEntryFee
     else case checked_add (participantCount s) 1 of Inl e \<Rightarrow> Inl e | Inr c \<Rightarrow>
       (case checked_sub c 1 of Inl e \<Rightarrow> Inl e | Inr idx \<Rightarrow>
          Inr (s\<lparr> participants := participants s @ [sender],
                   participantIndex := (participantIndex s)(sender := participantCount s),
                   isParticipant := (isParticipant s)(sender := True),
                   participantCount := c,
                   events := events s @ [ParticipantRegistered sender idx] \<rparr>)))"

section \<open>Matching\<close>

text \<open>
  Lines 311 to 322 of \<open>_generateMatches\<close>: the raw random value \<open>FHE.randEuint32()\<close> is the
  argument \<open>rawOffset\<close>; it is reduced modulo \<open>uint32(participantCount)\<close> and a zero
  remainder is replaced by one through \<open>FHE.select\<close>.
\<close>

definition matchingOffset :: "euint32 \<Rightarrow> uint256 \<Rightarrow> error + euint32" where
  "matchingOffset rawOffset count =
    (case FHE_rem rawOffset (ucast count) of Inl e \<Rightarrow> Inl e | Inr offsetMod \<Rightarrow>
       (let zero = FHE_asEuint32 0;
            one = FHE_asEuint32 1;
            isZero = FHE_eq offsetMod zero
        in Inr (FHE_select isZero one offsetMod)))"

text \<open>\<open>_generateMatches\<close> (an Isabelle name cannot start with an underscore).\<close>

definition generateMatches :: "euint32 \<Rightarrow> state \<Rightarrow> error + state" where
  "generateMatches rawOffset s =
    (if matchingGenerated s then Inl (Require ''Matches already generated'')
     else case matchingOffset rawOffset (participantCount s) of Inl e \<Rightarrow> Inl e | Inr off \<Rightarrow>
       Inr (s\<lparr> encryptedMatchingOffset := off, matchingGenerated := True \<rparr>))"

definition startMatching :: "address \<Rightarrow> uint256 \<Rightarrow> euint32 \<Rightarrow> state \<Rightarrow> error + state" where
  "startMatching sender now rawOffset s =
    (if sender \<noteq> owner s then Inl OnlyOwner
     else if currentPhase s \<noteq> Registration then Inl InvalidPhase
     else if now < registrationDeadline s \<and> participantCount s < maxParticipants s
       then Inl DeadlineNotReached
     else if participantCount s < minParticipants s then Inl InsufficientParticipants
     else case generateMatches rawOffset
                 (s\<lparr> currentPhase := Matching,
                      events := events s @ [PhaseChanged Matching now] \<rparr>) of
         Inl e \<Rightarrow> Inl e
       | Inr s' \<Rightarrow>
           Inr (s'\<lparr> currentPhase := GiftSubmission,
                     events := events s' @ [PhaseChanged GiftSubmission now,
                                            MatchingCompleted now] \<rparr>))"

section \<open>Recipient query\<close>

text \<open>
  Lines 366 to 371 of \<open>getMyRecipientEncrypted\<close>: the index is truncated to 32 bits, the
  sum is a 32-bit \<open>FHE.add\<close>, the remainder is taken by \<open>uint32(participantCount)\<close>.
\<close>

definition recipientIndexEnc :: "uint256 \<Rightarrow> euint32 \<Rightarrow> uint256 \<Rightarrow> error + euint32" where
  "recipientIndexEnc myIndex off count =
    (let myIndexEnc = FHE_asEuint32 (ucast myIndex);
         sm = FHE_add myIndexEnc off
     in FHE_rem sm (ucast count))"

definition getMyRecipientEncrypted :: "address \<Rightarrow> state \<Rightarrow> error + euint32" where
  "getMyRecipientEncrypted sender s =
    (if \<not> isParticipant s sender then Inl NotRegistered
     else if \<not> matchingGenerated s then Inl (Require ''Matching not yet generated'')
     else if \<not> (currentPhase s = GiftSubmission \<or> currentPhase s = WaitingReveal)
       then Inl (Require ''Cannot query recipient in this phase'')
     else recipientIndexEnc (participantIndex s sender) (encryptedMatchingOffset s)
            (participantCount s))"

section \<open>Gift submission\<close>

text \<open>
  \<open>FHE.fromExternal\<close> belongs to the external library: it is the parameter
  \<open>fromExternal\<close>, which yields the ingested value or \<open>None\<close> when the proof is rejected.
\<close>

definition submitGift ::
  "(externalEuint64 \<Rightarrow> bytes \<Rightarrow> euint64 option) \<Rightarrow> address \<Rightarrow> uint256
     \<Rightarrow> externalEuint64 \<Rightarrow> bytes \<Rightarrow> string \<Rightarrow> state \<Rightarrow> error + state" where
  "submitGift fromExternal sender now encryptedGiftValue inputProof giftMetadataURI s =
    (if \<not> isParticipant s sender then Inl NotRegistered
     else if currentPhase s \<noteq> GiftSubmission then Inl InvalidPhase
     else if giftSubmissionDeadline s \<le> now then Inl DeadlinePassed
     else if hasSubmittedGift s sender then Inl AlreadySubmittedGift
     else case fromExternal encryptedGiftValue inputProof of
         None \<Rightarrow> Inl FHE_InvalidProof
       | Some giftValue \<Rightarrow>
          (case checked_add (giftsSubmittedCount s) 1 of Inl e \<Rightarrow> Inl e | Inr c \<Rightarrow>
             (let s1 = s\<lparr> encryptedGiftValues := (encryptedGiftValues s)(sender := giftValue),
                          giftMetadataURIs := (giftMetadataURIs s)(sender := giftMetadataURI),
                          hasSubmittedGift := (hasSubmittedGift s)(sender := True),
                          giftsSubmittedCount := c,
                          events := events s @ [GiftSubmitted sender now] \<rparr>
              in if giftsSubmittedCount s1 = participantCount s1
                 then Inr (s1\<lparr> currentPhase := WaitingReveal,
                                events := events s1 @ [PhaseChanged WaitingReveal now] \<rparr>)
                 else Inr s1)))"

section \<open>Reveal\<close>

text \<open>Line 464: \<open>(i + decryptedOffset) % participantCount\<close> in checked 256-bit arithmetic.\<close>

definition recipientIndexReveal :: "uint256 \<Rightarrow> uint32 \<Rightarrow> uint256 \<Rightarrow> error + uint256" where
  "recipientIndexReveal i decryptedOffset count =
    (case checked_add i (ucast decryptedOffset) of Inl e \<Rightarrow> Inl e
     | Inr sm \<Rightarrow> checked_mod sm count)"

text \<open>The \<open>for\<close> loop of \<open>triggerReveal\<close>, from the index \<open>i\<close> on.\<close>

function revealLoop :: "uint256 \<Rightarrow> uint32 \<Rightarrow> state \<Rightarrow> error + state" where
  "revealLoop i decryptedOffset s =
    (if i < participantCount s then
       (case array_get (participants s) i of Inl e \<Rightarrow> Inl e | Inr giver \<Rightarrow>
       (case recipientIndexReveal i decryptedOffset (participantCount s) of Inl e \<Rightarrow> Inl e
        | Inr recipientIndex \<Rightarrow>
       (case array_get (participants s) recipientIndex of Inl e \<Rightarrow> Inl e | Inr recipient \<Rightarrow>
       (case checked_add i 1 of Inl e \<Rightarrow> Inl e | Inr i' \<Rightarrow>
          revealLoop i' decryptedOffset
            (s\<lparr> revealedRecipients := (revealedRecipients s)(giver := recipient),
                 events := events s @ [RecipientRevealed giver recipient] \<rparr>)))))
     else Inr s)"
  by pat_completeness auto
termination
proof (relation "measure (\<lambda>(i, d, s). unat (participantCount s) - unat i)")
  show "wf (measure (\<lambda>(i, d, s). unat (participantCount s) - unat i))"
    by simp
next
  fix i :: uint256 and decryptedOffset :: uint32 and s :: state
    and giver recipientIndex recipient i'
  assume lt: "i < participantCount s" and inc: "checked_add i 1 = Inr i'"
  from inc have "unat i' = unat i + 1"
    by (auto simp: checked_add_def unat_word_ariths split: if_splits)
  moreover from lt have "unat i < unat (participantCount s)"
    by (simp add: word_less_nat_alt)
  ultimately show
    "((i', decryptedOffset,
       s\<lparr> revealedRecipients := (revealedRecipients s)(giver := recipient),
          events := events s @ [RecipientRevealed giver recipient] \<rparr>),
      (i, decryptedOffset, s))
     \<in> measure (\<lambda>(i, d, s). unat (participantCount s) - unat i)"
    by simp
qed

definition triggerReveal :: "address \<Rightarrow> uint256 \<Rightarrow> uint32 \<Rightarrow> state \<Rightarrow> error + state" where
  "triggerReveal sender now decryptedOffset s =
    (if sender \<noteq> owner s then Inl OnlyOwner
     else if \<not> currentPhase s = WaitingReveal then Inl (Require ''Not ready for reveal'')
     else if \<not> revealTime s \<le> now then Inl (Require ''Too early to reveal'')
     else case revealLoop 0 decryptedOffset
                 (s\<lparr> currentPhase := Revealed,
                      revealedOffset := decryptedOffset,
                      events := events s @ [PhaseChanged Revealed now] \<rparr>) of
         Inl e \<Rightarrow> Inl e
       | Inr s' \<Rightarrow> Inr (s'\<lparr> events := events s' @ [GameRevealed now] \<rparr>))"

definition revealGift :: "address \<Rightarrow> address \<Rightarrow> uint64 \<Rightarrow> state \<Rightarrow> error + state" where
  "revealGift sender participant giftValue s =
    (if sender \<noteq> owner s then Inl OnlyOwner
     else if \<not> currentPhase s = Revealed then Inl (Require ''Not in reveal phase'')
     else if \<not> isParticipant s participant then Inl (Require ''Not a participant'')
     else Inr (s\<lparr> revealedGiftValues := (revealedGiftValues s)(participant := giftValue) \<rparr>))"

section \<open>Calls, and the states the contract can reach\<close>

text \<open>
  One external call of a state-changing function. A call that reverts leaves the state
  unchanged; \<open>getMyRecipientEncrypted\<close> changes nothing in the contract's own storage.
\<close>

datatype call =
    Register uint256
  | StartMatching euint32
  | GetMyRecipientEncrypted
  | SubmitGift externalEuint64 bytes string
  | TriggerReveal uint32
  | RevealGift address uint64

fun exec ::
  "(externalEuint64 \<Rightarrow> bytes \<Rightarrow> euint64 option) \<Rightarrow> address \<Rightarrow> uint256 \<Rightarrow> call \<Rightarrow> state
     \<Rightarrow> error + state" where
  "exec fromExternal sender now (Register val) s = register sender val now s"
| "exec fromExternal sender now (StartMatching rawOffset) s = startMatching sender now rawOffset s"
| "exec fromExternal sender now GetMyRecipientEncrypted s =
     (case getMyRecipientEncrypted sender s of Inl e \<Rightarrow> Inl e | Inr r \<Rightarrow> Inr s)"
| "exec fromExternal sender now (SubmitGift v p u) s = submitGift fromExternal sender now v p u s"
| "exec fromExternal sender now (TriggerReveal d) s = triggerReveal sender now d s"
| "exec fromExternal sender now (RevealGift a v) s = revealGift sender a v s"

text \<open>
  The ledger applies calls one after the other; a call that reverts changes nothing.
  Each entry is the caller, the block timestamp and the call.
\<close>

fun run ::
  "(externalEuint64 \<Rightarrow> bytes \<Rightarrow> euint64 option) \<Rightarrow> (address \<times> uint256 \<times> call) list
     \<Rightarrow> state \<Rightarrow> state" where
  "run fromExternal [] s = s"
| "run fromExternal ((sender, now, c) # cs) s =
     run fromExternal cs
       (case exec fromExternal sender now c s of Inl e \<Rightarrow> s | Inr s' \<Rightarrow> s')"

text \<open>
  The invariant of the contract's storage: it holds after the constructor and every
  successful call keeps it (lemmas \<open>game_inv_constructor\<close> and \<open>game_inv_exec\<close>).
\<close>

definition game_inv :: "state \<Rightarrow> bool" where
  "game_inv s \<longleftrightarrow>
     length (participants s) = unat (participantCount s) \<and>
     distinct (participants s) \<and>
     (\<forall>a. isParticipant s a \<longleftrightarrow> a \<in> set (participants s)) \<and>
     (\<forall>a. isParticipant s a \<longrightarrow> array_get (participants s) (participantIndex s a) = Inr a) \<and>
     (\<forall>a. hasSubmittedGift s a \<longrightarrow> isParticipant s a) \<and>
     participantCount s \<le> maxParticipants s \<and>
     maxParticipants s \<le> 256 \<and>
     3 \<le> minParticipants s \<and>
     (matchingGenerated s \<longleftrightarrow> currentPhase s \<noteq> Registration) \<and>
     (matchingGenerated s \<longrightarrow>
        1 \<le> unat (encryptedMatchingOffset s) \<and>
        unat (encryptedMatchingOffset s) < unat (participantCount s)) \<and>
     (case currentPhase s of
        Registration \<Rightarrow> giftsSubmittedCount s = 0
      | Matching \<Rightarrow> False
      | GiftSubmission \<Rightarrow>
          giftsSubmittedCount s < participantCount s \<and> minParticipants s \<le> participantCount s
      | WaitingReveal \<Rightarrow>
          giftsSubmittedCount s = participantCount s \<and> minParticipants s \<le> participantCount s
      | Revealed \<Rightarrow>
          giftsSubmittedCount s = participantCount s \<and> minParticipants s \<le> participantCount s)"

section \<open>Raw random values behind an offset\<close>

text \<open>
  The 32-bit raw values that the offset computation of \<open>_generateMatches\<close> sends to a
  given offset, for a given participant count.
\<close>

definition rawInputsFor :: "uint256 \<Rightarrow> euint32 \<Rightarrow> euint32 set" where
  "rawInputsFor count off = {rawOffset. matchingOffset rawOffset count = Inr off}"

section \<open>Example states\<close>

text \<open>
  The scenario of the specification: periods of 180, 120 and 60 seconds from time 0, fee 1,
  between 3 and 5 participants; the operator is 100 and the participants 1, 2, 3 registered
  in that order. \<open>gameWaiting\<close> is the state once all three gifts are in; the other states
  differ from it in the fields shown.
\<close>

definition gameWaiting :: state where
  "gameWaiting =
     \<lparr> owner = 100,
       registrationDeadline = 180,
       giftSubmissionDeadline = 300,
       revealTime = 360,
       entryFee = 1,
       minParticipants = 3,
       maxParticipants = 5,
       currentPhase = WaitingReveal,
       participants = [1, 2, 3],
       participantIndex = (\<lambda>a. if a = 2 then 1 else if a = 3 then 2 else 0),
       isParticipant = (\<lambda>a. a = 1 \<or> a = 2 \<or> a = 3),
       participantCount = 3,
       encryptedMatchingOffset = 1,
       matchingGenerated = True,
       encryptedGiftValues = (\<lambda>a. if a = 1 \<or> a = 2 \<or> a = 3 then 12345 else 0),
       giftMetadataURIs = (\<lambda>a. if a = 1 \<or> a = 2 \<or> a = 3 then ''ipfs://QmTest'' else []),
       hasSubmittedGift = (\<lambda>a. a = 1 \<or> a = 2 \<or> a = 3),
       giftsSubmittedCount = 3,
       revealedRecipients = (\<lambda>a. 0),
       revealedGiftValues = (\<lambda>a. 0),
       revealedOffset = 0,
       events = [] \<rparr>"

definition gameRegistration :: state where
  "gameRegistration =
     gameWaiting \<lparr> currentPhase := Registration,
                   matchingGenerated := False,
                   encryptedMatchingOffset := 0,
                   encryptedGiftValues := (\<lambda>a. 0),
                   giftMetadataURIs := (\<lambda>a. []),
                   hasSubmittedGift := (\<lambda>a. False),
                   giftsSubmittedCount := 0 \<rparr>"

definition gameSubmission :: state where
  "gameSubmission =
     gameWaiting \<lparr> currentPhase := GiftSubmission,
                   encryptedGiftValues := (\<lambda>a. if a = 1 \<or> a = 2 then 12345 else 0),
                   giftMetadataURIs := (\<lambda>a. if a = 1 \<or> a = 2 then ''ipfs://QmTest'' else []),
                   hasSubmittedGift := (\<lambda>a. a = 1 \<or> a = 2),
                   giftsSubmittedCount := 2 \<rparr>"

definition gameRevealed :: state where
  "gameRevealed =
     gameWaiting \<lparr> currentPhase := Revealed,
                   revealedRecipients := (\<lambda>a. if a = 1 then 2 else if a = 2 then 3
                                               else if a = 3 then 1 else 0),
                   revealedOffset := 1 \<rparr>"

text \<open>An ingestion of external ciphertexts that accepts every proof.\<close>

definition acceptAll :: "externalEuint64 \<Rightarrow> bytes \<Rightarrow> euint64 option" where
  "acceptAll v p = Some (ucast v)"

section \<open>Machine arithmetic\<close>

declare revealLoop.simps [simp del]

lemma unat_lt_256: "unat (x::uint256) < 2 ^ 256"
  using unsigned_less [of x] by simp

lemma unat_lt_32: "unat (x::uint32) < 2 ^ 32"
  using unsigned_less [of x] by simp

lemma checked_add_unat:
  "checked_add a b = Inr c \<Longrightarrow> unat c = unat a + unat b"
  by (auto simp: checked_add_def unat_word_ariths split: if_splits)

lemma unat_ucast_32_256: "unat (ucast (d::uint32) :: uint256) = unat d"
proof -
  have "unat d < 2 ^ 32" using unsigned_less [of d] by simp
  then have "unat d < (2::nat) ^ 256"
    by (rule less_le_trans) simp
  then show ?thesis
    by (simp add: unsigned_ucast_eq take_bit_nat_eq_self)
qed

lemma recipientIndexReveal_eq:
  assumes "i < n" "unat n \<le> 2 ^ 255"
  shows "\<exists>r. recipientIndexReveal i d n = Inr r \<and> unat r = (unat i + unat d) mod unat n"
proof -
  have iu: "unat i < unat n" using assms(1) by (simp add: word_less_nat_alt)
  have "unat d < 2 ^ 32" using unsigned_less [of d] by simp
  with iu assms(2) have "unat i + unat d < 2 ^ 255 + 2 ^ 32" by linarith
  also have "\<dots> < (2::nat) ^ 256" by simp
  finally have nov: "unat i + unat (ucast d :: uint256) < 2 ^ 256"
    by (simp add: unat_ucast_32_256)
  then have add: "checked_add i (ucast d) = Inr (i + ucast d)"
    by (simp add: checked_add_def)
  have u: "unat (i + ucast d) = unat i + unat d"
    using checked_add_unat [OF add] by (simp add: unat_ucast_32_256)
  have nz: "n \<noteq> 0" using assms(1) by auto
  show ?thesis
    using add nz u
    by (simp add: recipientIndexReveal_def checked_mod_def unat_mod)
qed

section \<open>The reveal loop\<close>

lemma array_get_Inr:
  "unat i < length xs \<Longrightarrow> array_get xs i = Inr (xs ! unat i)"
  by (simp add: array_get_def)

lemma revealLoop_ok:
  "length (participants s) = unat (participantCount s) \<Longrightarrow>
   distinct (participants s) \<Longrightarrow>
   unat (participantCount s) \<le> 2 ^ 255 \<Longrightarrow>
   \<exists>s'. revealLoop i d s = Inr s' \<and>
        s' = s\<lparr> revealedRecipients := revealedRecipients s', events := events s' \<rparr> \<and>
        (\<forall>j. unat i \<le> j \<and> j < length (participants s) \<longrightarrow>
             revealedRecipients s' (participants s ! j) =
               participants s ! ((j + unat d) mod length (participants s))) \<and>
        (\<forall>a. a \<notin> set (drop (unat i) (participants s)) \<longrightarrow>
             revealedRecipients s' a = revealedRecipients s a)"
proof (induction i d s rule: revealLoop.induct)
  case (1 i d s)
  let ?ps = "participants s"
  let ?n = "length ?ps"
  note len = "1.prems"(1) and dist = "1.prems"(2) and bnd = "1.prems"(3)
  show ?case
  proof (cases "i < participantCount s")
    case False
    then have "?n \<le> unat i" using len by (simp add: word_less_nat_alt)
    moreover have "revealLoop i d s = Inr s"
      using False by (subst revealLoop.simps) simp
    ultimately show ?thesis by auto
  next
    case True
    then have ilt: "unat i < ?n" using len by (simp add: word_less_nat_alt)
    have g: "array_get ?ps i = Inr (?ps ! unat i)"
      using ilt by (rule array_get_Inr)
    obtain r where r: "recipientIndexReveal i d (participantCount s) = Inr r"
      and ru: "unat r = (unat i + unat d) mod ?n"
      using recipientIndexReveal_eq [OF True bnd, of d] len by auto
    have "0 < ?n" using ilt by linarith
    then have rlt: "unat r < ?n" unfolding ru by (rule mod_less_divisor)
    have rc: "array_get ?ps r = Inr (?ps ! unat r)"
      using rlt by (rule array_get_Inr)
    have "unat i + unat (1::uint256) < 2 ^ 256"
      using ilt len unat_lt_256 [of "participantCount s"] by simp
    then have inc: "checked_add i 1 = Inr (i + 1)"
      by (simp add: checked_add_def)
    have iu: "unat (i + 1) = Suc (unat i)"
      using checked_add_unat [OF inc] by simp
    let ?s1 = "s\<lparr> revealedRecipients := (revealedRecipients s)(?ps ! unat i := ?ps ! unat r),
                  events := events s @ [RecipientRevealed (?ps ! unat i) (?ps ! unat r)] \<rparr>"
    have unfold: "revealLoop i d s = revealLoop (i + 1) d ?s1"
      using True g r rc inc by (subst revealLoop.simps) simp
    from "1.IH" [OF True g r rc inc] len dist bnd
    obtain s' where run: "revealLoop (i + 1) d ?s1 = Inr s'"
      and fields: "s' = ?s1\<lparr> revealedRecipients := revealedRecipients s', events := events s' \<rparr>"
      and later: "\<forall>j. unat (i + 1) \<le> j \<and> j < ?n \<longrightarrow>
                     revealedRecipients s' (?ps ! j) = ?ps ! ((j + unat d) mod ?n)"
      and other: "\<forall>a. a \<notin> set (drop (unat (i + 1)) ?ps) \<longrightarrow>
                     revealedRecipients s' a = revealedRecipients ?s1 a"
      by auto
    have split: "drop (unat i) ?ps = ?ps ! unat i # drop (Suc (unat i)) ?ps"
      using ilt by (simp add: Cons_nth_drop_Suc)
    have "distinct (drop (unat i) ?ps)" using dist by simp
    then have fresh: "?ps ! unat i \<notin> set (drop (Suc (unat i)) ?ps)"
      by (simp add: split)
    have here: "revealedRecipients s' (?ps ! unat i) = ?ps ! ((unat i + unat d) mod ?n)"
      using other fresh iu ru by simp
    have a: "\<forall>j. unat i \<le> j \<and> j < ?n \<longrightarrow>
                revealedRecipients s' (?ps ! j) = ?ps ! ((j + unat d) mod ?n)"
    proof (intro allI impI)
      fix j assume j: "unat i \<le> j \<and> j < ?n"
      show "revealedRecipients s' (?ps ! j) = ?ps ! ((j + unat d) mod ?n)"
      proof (cases "j = unat i")
        case True
        then show ?thesis using here by simp
      next
        case False
        with j have "unat (i + 1) \<le> j \<and> j < ?n" using iu by simp
        with later show ?thesis by blast
      qed
    qed
    have b: "\<forall>a. a \<notin> set (drop (unat i) ?ps) \<longrightarrow>
                revealedRecipients s' a = revealedRecipients s a"
      using other iu by (simp add: split)
    have c: "s' = s\<lparr> revealedRecipients := revealedRecipients s', events := events s' \<rparr>"
      by (subst fields) simp
    show ?thesis
      using unfold run a b c by simp
  qed
qed

section \<open>The matching offset\<close>

lemma matchingOffset_Inr:
  assumes "matchingOffset raw n = Inr off"
  shows "(ucast n :: uint32) \<noteq> 0"
    and "off = FHE_select (FHE_eq (raw mod ucast n) 0) 1 (raw mod ucast n)"
  using assms
  by (auto simp: matchingOffset_def FHE_rem_def FHE_asEuint32_def Let_def split: if_splits)

lemma ucast_le: "unat (ucast (n::uint256) :: uint32) \<le> unat n"
  by (simp add: unsigned_ucast_eq)

lemma cand_lt:
  assumes "(ucast (n::uint256) :: uint32) \<noteq> 0"
  shows "unat ((raw::uint32) mod ucast n) < unat n"
proof -
  have "raw mod ucast n < (ucast n :: uint32)"
    using assms by (simp add: word_mod_less_divisor word_greater_zero_iff)
  then have "unat (raw mod ucast n) < unat (ucast n :: uint32)"
    by (simp add: word_less_nat_alt)
  with ucast_le [of n] show ?thesis by linarith
qed

lemma matchingOffset_range:
  assumes "matchingOffset raw n = Inr off" "2 \<le> unat n"
  shows "1 \<le> unat off \<and> unat off \<le> unat n - 1"
proof -
  have nz: "(ucast n :: uint32) \<noteq> 0" using assms(1) by (rule matchingOffset_Inr)
  have off: "off = (if raw mod ucast n = 0 then 1 else raw mod ucast n)"
    using matchingOffset_Inr(2) [OF assms(1)] by (simp add: FHE_select_def FHE_eq_def)
  show ?thesis
  proof (cases "raw mod (ucast n :: uint32) = 0")
    case True
    with off assms(2) show ?thesis by simp
  next
    case False
    then have "unat (raw mod (ucast n :: uint32)) \<noteq> 0"
      by (simp add: unat_eq_0)
    with off False cand_lt [OF nz, of raw] show ?thesis by simp
  qed
qed

section \<open>The invariant holds in every reachable state\<close>

lemma game_inv_constructor:
  assumes "constructor sender now rp gp rdl fee minP maxP = Inr s"
  shows "game_inv s"
  using assms
  by (auto simp: constructor_def game_inv_def split: if_splits sum.splits)

lemma triggerReveal_ok:
  assumes inv: "game_inv s" and ph: "currentPhase s = WaitingReveal" and tm: "revealTime s \<le> now"
  shows "\<exists>s'. triggerReveal (owner s) now d s = Inr s' \<and>
           s' = s\<lparr> currentPhase := Revealed, revealedOffset := d,
                    revealedRecipients := revealedRecipients s', events := events s' \<rparr> \<and>
           (\<forall>j < length (participants s).
              revealedRecipients s' (participants s ! j) =
                participants s ! ((j + unat d) mod length (participants s)))"
proof -
  let ?s0 = "s\<lparr> currentPhase := Revealed, revealedOffset := d,
                 events := events s @ [PhaseChanged Revealed now] \<rparr>"
  have len: "length (participants ?s0) = unat (participantCount ?s0)"
    and dist: "distinct (participants ?s0)"
    using inv by (simp_all add: game_inv_def)
  have "participantCount s \<le> 256"
    using inv unfolding game_inv_def by (meson order_trans)
  then have "unat (participantCount s) \<le> 256"
    by (simp add: word_le_nat_alt)
  then have bnd: "unat (participantCount ?s0) \<le> 2 ^ 255" by simp
  from revealLoop_ok [OF len dist bnd, of 0 d]
  obtain s1 where run: "revealLoop 0 d ?s0 = Inr s1"
    and fields: "s1 = ?s0\<lparr> revealedRecipients := revealedRecipients s1, events := events s1 \<rparr>"
    and rec: "\<forall>j. unat (0::uint256) \<le> j \<and> j < length (participants ?s0) \<longrightarrow>
                revealedRecipients s1 (participants ?s0 ! j) =
                  participants ?s0 ! ((j + unat d) mod length (participants ?s0))"
    by blast
  let ?s' = "s1\<lparr> events := events s1 @ [GameRevealed now] \<rparr>"
  have res: "triggerReveal (owner s) now d s = Inr ?s'"
    using ph tm run by (simp add: triggerReveal_def)
  have f: "?s' = s\<lparr> currentPhase := Revealed, revealedOffset := d,
                    revealedRecipients := revealedRecipients ?s', events := events ?s' \<rparr>"
    by (subst fields) simp
  show ?thesis
    using res f rec by auto
qed


lemma game_inv_register:
  assumes inv: "game_inv s" and ok: "register sender val now s = Inr s'"
  shows "game_inv s'"
proof -
  from ok have ph: "currentPhase s = Registration"
    and np: "\<not> isParticipant s sender"
    and room: "\<not> maxParticipants s \<le> participantCount s"
    by (auto simp: register_def split: if_splits)
  from ok ph np room obtain c idx where
    c: "checked_add (participantCount s) 1 = Inr c" and
    s': "s' = s\<lparr> participants := participants s @ [sender],
                  participantIndex := (participantIndex s)(sender := participantCount s),
                  isParticipant := (isParticipant s)(sender := True),
                  participantCount := c,
                  events := events s @ [ParticipantRegistered sender idx] \<rparr>"
    by (auto simp: register_def split: if_splits sum.splits)
  have cu: "unat c = Suc (unat (participantCount s))"
    using checked_add_unat [OF c] by simp
  have len: "length (participants s) = unat (participantCount s)"
    using inv by (simp add: game_inv_def)
  have fresh: "sender \<notin> set (participants s)"
    using inv np by (simp add: game_inv_def)
  have "unat (participantCount s) < unat (maxParticipants s)"
    using room by (simp add: word_le_nat_alt)
  then have cmax: "c \<le> maxParticipants s"
    using cu by (simp add: word_le_nat_alt)
  have idx: "\<forall>a. isParticipant s a \<longrightarrow>
               unat (participantIndex s a) < length (participants s) \<and>
               participants s ! unat (participantIndex s a) = a"
    using inv by (auto simp: game_inv_def array_get_def split: if_splits)
  have idx': "\<forall>a. isParticipant s' a \<longrightarrow>
               array_get (participants s') (participantIndex s' a) = Inr a"
    using idx len np by (auto simp: s' array_get_def nth_append)
  show ?thesis
    using inv ph fresh cmax idx' cu len
    by (auto simp: game_inv_def s')
qed

lemma game_inv_startMatching:
  assumes inv: "game_inv s" and ok: "startMatching sender now raw s = Inr s'"
  shows "game_inv s'"
proof -
  from ok have ph: "currentPhase s = Registration"
    and enough: "\<not> participantCount s < minParticipants s"
    by (auto simp: startMatching_def split: if_splits)
  from ok obtain off where
    off: "matchingOffset raw (participantCount s) = Inr off" and
    s': "s' = s\<lparr> currentPhase := GiftSubmission,
                  encryptedMatchingOffset := off,
                  matchingGenerated := True,
                  events := events s @ [PhaseChanged Matching now,
                                        PhaseChanged GiftSubmission now,
                                        MatchingCompleted now] \<rparr>"
    by (auto simp: startMatching_def generateMatches_def split: if_splits sum.splits)
  have "3 \<le> minParticipants s" using inv by (simp add: game_inv_def)
  with enough have "3 \<le> participantCount s" by simp
  then have three: "3 \<le> unat (participantCount s)"
    by (simp add: word_le_nat_alt)
  then have rng: "1 \<le> unat off \<and> unat off \<le> unat (participantCount s) - 1"
    using matchingOffset_range [OF off] by simp
  have pos: "0 < participantCount s"
    using three by (simp add: word_less_nat_alt)
  show ?thesis
    using inv ph enough rng three pos
    by (auto simp: game_inv_def s')
qed

lemma game_inv_submitGift:
  assumes inv: "game_inv s" and ok: "submitGift fx sender now v p u s = Inr s'"
  shows "game_inv s'"
proof -
  from ok have ph: "currentPhase s = GiftSubmission"
    and isp: "isParticipant s sender"
    by (auto simp: submitGift_def split: if_splits)
  from ok obtain c g where
    c: "checked_add (giftsSubmittedCount s) 1 = Inr c" and
    s': "s' = (let s1 = s\<lparr> encryptedGiftValues := (encryptedGiftValues s)(sender := g),
                          giftMetadataURIs := (giftMetadataURIs s)(sender := u),
                          hasSubmittedGift := (hasSubmittedGift s)(sender := True),
                          giftsSubmittedCount := c,
                          events := events s @ [GiftSubmitted sender now] \<rparr>
              in if c = participantCount s
                 then s1\<lparr> currentPhase := WaitingReveal,
                           events := events s1 @ [PhaseChanged WaitingReveal now] \<rparr>
                 else s1)"
    by (auto simp: submitGift_def Let_def split: if_splits sum.splits option.splits)
  have cu: "unat c = Suc (unat (giftsSubmittedCount s))"
    using checked_add_unat [OF c] by simp
  have "unat (giftsSubmittedCount s) < unat (participantCount s)"
    using inv ph by (simp add: game_inv_def word_less_nat_alt)
  then have "c \<noteq> participantCount s \<Longrightarrow> c < participantCount s"
    using cu by (metis Suc_lessI word_less_nat_alt word_unat_eq_iff)
  then show ?thesis
    using inv ph isp
    by (auto simp: game_inv_def s' Let_def)
qed

lemma triggerReveal_owner:
  "triggerReveal sender now d s = Inr s' \<Longrightarrow>
     sender = owner s \<and> currentPhase s = WaitingReveal \<and> revealTime s \<le> now"
  by (auto simp: triggerReveal_def split: if_splits)

lemma game_inv_triggerReveal:
  assumes inv: "game_inv s" and ok: "triggerReveal sender now d s = Inr s'"
  shows "game_inv s'"
proof -
  from triggerReveal_owner [OF ok] have o: "sender = owner s"
    and ph: "currentPhase s = WaitingReveal" and tm: "revealTime s \<le> now" by auto
  from triggerReveal_ok [OF inv ph tm, of d] ok o
  have "s' = s\<lparr> currentPhase := Revealed, revealedOffset := d,
                 revealedRecipients := revealedRecipients s', events := events s' \<rparr>"
    by auto
  then obtain rr ev where s': "s' = s\<lparr> currentPhase := Revealed, revealedOffset := d,
                 revealedRecipients := rr, events := ev \<rparr>"
    by blast
  show ?thesis
    using inv ph by (auto simp: game_inv_def s')
qed

lemma game_inv_revealGift:
  assumes inv: "game_inv s" and ok: "revealGift sender a v s = Inr s'"
  shows "game_inv s'"
  using assms by (auto simp: revealGift_def game_inv_def split: if_splits)

lemma game_inv_exec:
  assumes "game_inv s" "exec fx sender now c s = Inr s'"
  shows "game_inv s'"
  using assms
  by (cases c)
     (auto dest: game_inv_register game_inv_startMatching game_inv_submitGift
                 game_inv_triggerReveal game_inv_revealGift split: sum.splits)

section \<open>The example states satisfy the invariant\<close>

lemma inv_waiting: "game_inv gameWaiting"
  by (simp add: game_inv_def gameWaiting_def array_get_def)

lemma inv_reg: "game_inv gameRegistration"
  by (simp add: game_inv_def gameWaiting_def gameRegistration_def array_get_def)


lemma inv_rev: "game_inv gameRevealed"
  by (simp add: game_inv_def gameWaiting_def gameRevealed_def array_get_def)

section \<open>Gift values posted by the operator\<close>

text \<open>
  Claim C10. \<open>revealGift\<close> is not write-once and does not look at the submission flag: in
  phase Revealed, for a registered participant \<open>p\<close> and any two values, the operator's call
  with the first value succeeds and stores it, a second call with the second value succeeds
  too and leaves the second value; \<open>hasSubmittedGift\<close> is neither read nor written, so the
  calls succeed whether or not \<open>p\<close> ever submitted a gift.
\<close>

theorem C10_revealGift_overwrites:
  assumes "currentPhase s = Revealed" and "isParticipant s p"
  shows "\<exists>s1 s2. revealGift (owner s) p v1 s = Inr s1 \<and>
                 revealedGiftValues s1 p = v1 \<and>
                 revealGift (owner s1) p v2 s1 = Inr s2 \<and>
                 revealedGiftValues s2 p = v2 \<and>
                 hasSubmittedGift s2 = hasSubmittedGift s"
  using assms by (simp add: revealGift_def)

text \<open>The same at a state where participant 2 has no gift on record.\<close>

theorem C10_witness:
  "currentPhase (gameRevealed\<lparr>hasSubmittedGift := (\<lambda>a. False)\<rparr>) = Revealed \<and>
   isParticipant (gameRevealed\<lparr>hasSubmittedGift := (\<lambda>a. False)\<rparr>) 2 \<and>
   \<not> hasSubmittedGift (gameRevealed\<lparr>hasSubmittedGift := (\<lambda>a. False)\<rparr>) 2 \<and>
   (\<exists>s1 s2. revealGift 100 2 7 (gameRevealed\<lparr>hasSubmittedGift := (\<lambda>a. False)\<rparr>) = Inr s1 \<and>
            revealedGiftValues s1 2 = 7 \<and>
            revealGift 100 2 9 s1 = Inr s2 \<and>
            revealedGiftValues s2 2 = 9)"
proof -
  let ?s = "gameRevealed\<lparr>hasSubmittedGift := (\<lambda>a. False)\<rparr>"
  have h1: "currentPhase ?s = Revealed"
    by (simp add: gameRevealed_def gameWaiting_def)
  have h2: "isParticipant ?s 2"
    by (simp add: gameRevealed_def gameWaiting_def)
  have o: "owner ?s = 100"
    by (simp add: gameRevealed_def gameWaiting_def)
  from C10_revealGift_overwrites [OF h1 h2, of 7 9]
  obtain s1 s2 where "revealGift (owner ?s) 2 7 ?s = Inr s1" "revealedGiftValues s1 2 = 7"
    "revealGift (owner s1) 2 9 s1 = Inr s2" "revealedGiftValues s2 2 = 9"
    by blast
  moreover from this have "owner s1 = 100"
    using o by (auto simp: revealGift_def split: if_splits)
  ultimately show ?thesis
    using h1 h2 o by auto
qed

section \<open>The configuration stored by the constructor\<close>

text \<open>
  Claim C8, as amended. Whenever the constructor accepts its arguments, each deadline is the
  previous one plus its duration, computed without overflow; hence registration deadline
  \<open>\<le>\<close> gift-submission deadline \<open>\<le>\<close> reveal time, and each inequality is strict exactly
  when the corresponding duration is not zero. Moreover min \<open>\<le>\<close> max and max \<open>\<le>\<close> 256.
  The constructor does not reject a zero duration, so the strict order of the claim fails.
\<close>

theorem C8_constructor_configuration:
  assumes "constructor sender now registrationPeriod giftSubmissionPeriod revealDelay fee minP maxP
             = Inr s"
  shows "unat (registrationDeadline s) = unat now + unat registrationPeriod \<and>
         unat (giftSubmissionDeadline s) = unat (registrationDeadline s) + unat giftSubmissionPeriod \<and>
         unat (revealTime s) = unat (giftSubmissionDeadline s) + unat revealDelay \<and>
         registrationDeadline s \<le> giftSubmissionDeadline s \<and>
         giftSubmissionDeadline s \<le> revealTime s \<and>
         (registrationDeadline s < giftSubmissionDeadline s \<longleftrightarrow> giftSubmissionPeriod \<noteq> 0) \<and>
         (giftSubmissionDeadline s < revealTime s \<longleftrightarrow> revealDelay \<noteq> 0) \<and>
         minParticipants s \<le> maxParticipants s \<and>
         maxParticipants s \<le> 256"
proof -
  from assms obtain rd gd rt where
    rd: "checked_add now registrationPeriod = Inr rd" and
    gd: "checked_add rd giftSubmissionPeriod = Inr gd" and
    rt: "checked_add gd revealDelay = Inr rt" and
    f: "registrationDeadline s = rd" "giftSubmissionDeadline s = gd" "revealTime s = rt"
       "minParticipants s = minP" "maxParticipants s = maxP" and
    lim: "minP \<le> maxP" "maxP \<le> 256"
    by (auto simp: constructor_def split: if_splits sum.splits)
  note u = checked_add_unat [OF rd] checked_add_unat [OF gd] checked_add_unat [OF rt]
  show ?thesis
    using u lim by (auto simp: f word_le_nat_alt word_less_nat_alt unat_gt_0)
qed

text \<open>
  A gift-submission period of 0 is accepted and makes the first two deadlines equal.
\<close>

theorem C8_counterexample:
  "\<not> isl (constructor 100 0 180 0 60 1 3 5) \<and>
   \<not> registrationDeadline (projr (constructor 100 0 180 0 60 1 3 5))
       < giftSubmissionDeadline (projr (constructor 100 0 180 0 60 1 3 5))"
  by (simp add: constructor_def checked_add_def)

text \<open>The configuration of the specification's scenario, deployed at time 0.\<close>

theorem C8_witness:
  "constructor 100 0 180 120 60 1 3 5 = Inr (projr (constructor 100 0 180 120 60 1 3 5)) \<and>
   registrationDeadline (projr (constructor 100 0 180 120 60 1 3 5)) = 180 \<and>
   giftSubmissionDeadline (projr (constructor 100 0 180 120 60 1 3 5)) = 300 \<and>
   revealTime (projr (constructor 100 0 180 120 60 1 3 5)) = 360 \<and>
   registrationDeadline (projr (constructor 100 0 180 120 60 1 3 5))
     < giftSubmissionDeadline (projr (constructor 100 0 180 120 60 1 3 5)) \<and>
   giftSubmissionDeadline (projr (constructor 100 0 180 120 60 1 3 5))
     < revealTime (projr (constructor 100 0 180 120 60 1 3 5))"
proof -
  have h: "constructor 100 0 180 120 60 1 3 5 = Inr (projr (constructor 100 0 180 120 60 1 3 5))"
    by (simp add: constructor_def checked_add_def)
  have v: "registrationDeadline (projr (constructor 100 0 180 120 60 1 3 5)) = 180"
    "giftSubmissionDeadline (projr (constructor 100 0 180 120 60 1 3 5)) = 300"
    "revealTime (projr (constructor 100 0 180 120 60 1 3 5)) = 360"
    by (simp_all add: constructor_def checked_add_def)
  show ?thesis
    using C8_constructor_configuration [OF h] h v by simp
qed

section \<open>Offset generation\<close>

text \<open>
  Claim C2. When \<open>startMatching\<close> succeeds on a state with at least two participants, the
  raw random value has been reduced modulo the participant count to a candidate below the
  count, the stored offset is \<open>FHE.select\<close> applied to the zero test, the constant one and
  the candidate (both alternatives are arguments of the select), it lies in \<open>[1, n-1]\<close>, and
  it is not a multiple of the count, so the shift it induces is not the identity. In every
  state of the invariant that meets the operator's preconditions the call does succeed.
\<close>

theorem C2_offset_generation:
  assumes "2 \<le> unat (participantCount s)"
  shows "(\<forall>s'. startMatching sender now rawOffset s = Inr s' \<longrightarrow>
            unat (rawOffset mod ucast (participantCount s)) < unat (participantCount s) \<and>
            encryptedMatchingOffset s' =
              FHE_select (FHE_eq (rawOffset mod ucast (participantCount s)) (FHE_asEuint32 0))
                (FHE_asEuint32 1) (rawOffset mod ucast (participantCount s)) \<and>
            1 \<le> unat (encryptedMatchingOffset s') \<and>
            unat (encryptedMatchingOffset s') \<le> unat (participantCount s) - 1 \<and>
            unat (encryptedMatchingOffset s') mod unat (participantCount s') \<noteq> 0 \<and>
            participantCount s' = participantCount s \<and>
            matchingGenerated s' \<and> currentPhase s' = GiftSubmission) \<and>
         (game_inv s \<and> currentPhase s = Registration \<and>
          (registrationDeadline s \<le> now \<or> maxParticipants s \<le> participantCount s) \<and>
          minParticipants s \<le> participantCount s \<longrightarrow>
            (\<exists>s'. startMatching (owner s) now rawOffset s = Inr s'))"
proof (intro conjI allI impI)
  fix s'
  assume ok: "startMatching sender now rawOffset s = Inr s'"
  then obtain off where
    off: "matchingOffset rawOffset (participantCount s) = Inr off" and
    s': "s' = s\<lparr> currentPhase := GiftSubmission,
                  encryptedMatchingOffset := off,
                  matchingGenerated := True,
                  events := events s @ [PhaseChanged Matching now,
                                        PhaseChanged GiftSubmission now,
                                        MatchingCompleted now] \<rparr>"
    by (auto simp: startMatching_def generateMatches_def split: if_splits sum.splits)
  note nz = matchingOffset_Inr(1) [OF off] and sel = matchingOffset_Inr(2) [OF off]
    and rng = matchingOffset_range [OF off assms]
  show "unat (rawOffset mod ucast (participantCount s)) < unat (participantCount s)"
    using nz by (rule cand_lt)
  show "encryptedMatchingOffset s' =
          FHE_select (FHE_eq (rawOffset mod ucast (participantCount s)) (FHE_asEuint32 0))
            (FHE_asEuint32 1) (rawOffset mod ucast (participantCount s))"
    using sel by (simp add: s' FHE_asEuint32_def)
  show "1 \<le> unat (encryptedMatchingOffset s')"
    using rng by (simp add: s')
  show "unat (encryptedMatchingOffset s') \<le> unat (participantCount s) - 1"
    using rng by (simp add: s')
  have "unat off < unat (participantCount s)" using rng assms by linarith
  then have "unat off mod unat (participantCount s) = unat off" by (rule mod_less)
  then show "unat (encryptedMatchingOffset s') mod unat (participantCount s') \<noteq> 0"
    using rng by (simp add: s')
  show "participantCount s' = participantCount s" by (simp add: s')
  show "matchingGenerated s'" by (simp add: s')
  show "currentPhase s' = GiftSubmission" by (simp add: s')
next
  assume pre: "game_inv s \<and> currentPhase s = Registration \<and>
          (registrationDeadline s \<le> now \<or> maxParticipants s \<le> participantCount s) \<and>
          minParticipants s \<le> participantCount s"
  then have ng: "\<not> matchingGenerated s" by (simp add: game_inv_def)
  from pre have "participantCount s \<le> 256"
    unfolding game_inv_def by (meson order_trans)
  then have le: "unat (participantCount s) \<le> 256" by (simp add: word_le_nat_alt)
  then have "unat (participantCount s) < 2 ^ 32" by simp
  then have "unat (ucast (participantCount s) :: uint32) = unat (participantCount s)"
    by (simp add: unsigned_ucast_eq take_bit_nat_eq_self)
  with assms have nz: "(ucast (participantCount s) :: uint32) \<noteq> 0"
    by (metis not_numeral_le_zero unat_0)
  from pre have cond: "\<not> (now < registrationDeadline s \<and> participantCount s < maxParticipants s)"
    by auto
  from pre have enough: "\<not> participantCount s < minParticipants s" by auto
  show "\<exists>s'. startMatching (owner s) now rawOffset s = Inr s'"
    using pre ng nz cond enough
    by (simp add: startMatching_def generateMatches_def matchingOffset_def FHE_rem_def Let_def)
qed

text \<open>
  Three participants, the registration deadline reached, and a raw value 6 whose remainder
  is 0: the stored offset is 1.
\<close>

theorem C2_witness:
  "2 \<le> unat (participantCount gameRegistration) \<and>
   startMatching 100 180 6 gameRegistration
     = Inr (projr (startMatching 100 180 6 gameRegistration)) \<and>
   encryptedMatchingOffset (projr (startMatching 100 180 6 gameRegistration)) = 1"
proof -
  have h: "2 \<le> unat (participantCount gameRegistration)"
    by (simp add: gameRegistration_def gameWaiting_def)
  have r: "startMatching 100 180 6 gameRegistration
             = Inr (projr (startMatching 100 180 6 gameRegistration))"
    by (simp add: startMatching_def generateMatches_def matchingOffset_def FHE_rem_def
          Let_def gameRegistration_def gameWaiting_def)
  have c: "(6::uint32) mod ucast (participantCount gameRegistration) = 0"
    by (simp add: gameRegistration_def gameWaiting_def)
  from C2_offset_generation [OF h, of 100 180 6] r
  have "encryptedMatchingOffset (projr (startMatching 100 180 6 gameRegistration)) =
          FHE_select (FHE_eq (6 mod ucast (participantCount gameRegistration)) (FHE_asEuint32 0))
            (FHE_asEuint32 1) (6 mod ucast (participantCount gameRegistration))"
    by blast
  then show ?thesis
    using h r by (simp add: c FHE_select_def FHE_eq_def FHE_asEuint32_def)
qed

section \<open>Properties kept along a run\<close>

lemma game_inv_run: "game_inv s \<Longrightarrow> game_inv (run fx cs s)"
proof (induction cs arbitrary: s)
  case Nil
  then show ?case by simp
next
  case (Cons x cs)
  obtain a t c where x: "x = (a, t, c)" by (cases x)
  show ?case
  proof (cases "exec fx a t c s")
    case (Inl e)
    with Cons x show ?thesis by simp
  next
    case (Inr s')
    with Cons.prems have "game_inv s'" by (auto dest: game_inv_exec)
    with Cons.IH Inr x show ?thesis by simp
  qed
qed

lemma revealLoop_flags:
  "revealLoop i d s = Inr s' \<Longrightarrow>
     hasSubmittedGift s' = hasSubmittedGift s \<and> isParticipant s' = isParticipant s"
proof (induction i d s rule: revealLoop.induct)
  case (1 i d s)
  show ?case
  proof (cases "i < participantCount s")
    case False
    with "1.prems" show ?thesis by (subst (asm) revealLoop.simps) simp
  next
    case True
    from "1.prems" True obtain giver r recipient i' where
      g: "array_get (participants s) i = Inr giver" and
      r: "recipientIndexReveal i d (participantCount s) = Inr r" and
      rc: "array_get (participants s) r = Inr recipient" and
      inc: "checked_add i 1 = Inr i'" and
      rest: "revealLoop i' d
               (s\<lparr> revealedRecipients := (revealedRecipients s)(giver := recipient),
                    events := events s @ [RecipientRevealed giver recipient] \<rparr>) = Inr s'"
      by (subst (asm) revealLoop.simps) (auto split: sum.splits)
    from "1.IH" [OF True g r rc inc rest] show ?thesis by simp
  qed
qed

lemma exec_keeps_flags:
  assumes "exec fx sender now c s = Inr s'" "hasSubmittedGift s a" "isParticipant s a"
  shows "hasSubmittedGift s' a \<and> isParticipant s' a"
proof (cases c)
  case (Register val)
  with assms show ?thesis
    by (auto simp: register_def split: if_splits sum.splits)
next
  case (StartMatching raw)
  with assms show ?thesis
    by (auto simp: startMatching_def generateMatches_def split: if_splits sum.splits)
next
  case GetMyRecipientEncrypted
  with assms show ?thesis by (auto split: sum.splits)
next
  case (SubmitGift v p u)
  with assms show ?thesis
    by (auto simp: submitGift_def Let_def split: if_splits sum.splits option.splits)
next
  case (TriggerReveal d)
  with assms show ?thesis
    by (auto simp: triggerReveal_def split: if_splits sum.splits dest!: revealLoop_flags)
next
  case (RevealGift p v)
  with assms show ?thesis
    by (auto simp: revealGift_def split: if_splits)
qed

lemma run_keeps_flags:
  "hasSubmittedGift s a \<Longrightarrow> isParticipant s a \<Longrightarrow>
     hasSubmittedGift (run fx cs s) a \<and> isParticipant (run fx cs s) a"
proof (induction cs arbitrary: s)
  case Nil
  then show ?case by simp
next
  case (Cons x cs)
  obtain b t c where x: "x = (b, t, c)" by (cases x)
  show ?case
  proof (cases "exec fx b t c s")
    case (Inl e)
    with Cons x show ?thesis by simp
  next
    case (Inr s')
    with Cons.prems have "hasSubmittedGift s' a \<and> isParticipant s' a"
      by (auto dest: exec_keeps_flags)
    with Cons.IH Inr x show ?thesis by simp
  qed
qed

lemma submitGift_sets_flag:
  "submitGift fx a now v p u s = Inr s' \<Longrightarrow> hasSubmittedGift s' a \<and> isParticipant s' a"
  by (auto simp: submitGift_def Let_def split: if_splits sum.splits option.splits)

lemma exec_keeps_Revealed:
  assumes "exec fx sender now c s = Inr s'" and "currentPhase s = Revealed"
  shows "currentPhase s' = Revealed"
proof (cases c)
  case (Register val)
  with assms show ?thesis by (auto simp: register_def split: if_splits)
next
  case (StartMatching raw)
  with assms show ?thesis by (auto simp: startMatching_def split: if_splits)
next
  case GetMyRecipientEncrypted
  with assms show ?thesis by (auto split: sum.splits)
next
  case (SubmitGift v p u)
  with assms show ?thesis by (auto simp: submitGift_def split: if_splits)
next
  case (TriggerReveal d)
  with assms show ?thesis by (auto simp: triggerReveal_def split: if_splits)
next
  case (RevealGift a v)
  with assms show ?thesis by (auto simp: revealGift_def split: if_splits)
qed

lemma run_keeps_Revealed:
  "currentPhase s = Revealed \<Longrightarrow> currentPhase (run fx cs s) = Revealed"
proof (induction cs arbitrary: s)
  case Nil
  then show ?case by simp
next
  case (Cons x cs)
  obtain b t c where x: "x = (b, t, c)" by (cases x)
  show ?case
  proof (cases "exec fx b t c s")
    case (Inl e)
    with Cons x show ?thesis by simp
  next
    case (Inr s')
    with Cons.prems have "currentPhase s' = Revealed" by (auto dest: exec_keeps_Revealed)
    with Cons.IH Inr x show ?thesis by simp
  qed
qed

section \<open>A second gift submission\<close>

text \<open>
  Claim C6, as amended. Once a participant's \<open>submitGift\<close> has succeeded, then after any
  further calls to the contract every second \<open>submitGift\<close> from the same principal fails:
  with the wrong-phase error when the phase is no longer GiftSubmission, with the
  deadline-passed error when the phase is GiftSubmission and the gift-submission deadline is
  reached, and with the duplicate-submission error otherwise. The phase and the deadline
  are checked before the submission flag.
\<close>

theorem C6_second_submitGift:
  assumes "submitGift fx a now v p u s0 = Inr s1" and "s = run fx cs s1"
  shows "hasSubmittedGift s a \<and>
         submitGift fx a now' v' p' u' s =
           Inl (if currentPhase s \<noteq> GiftSubmission then InvalidPhase
                else if giftSubmissionDeadline s \<le> now' then DeadlinePassed
                else AlreadySubmittedGift)"
proof -
  from submitGift_sets_flag [OF assms(1)]
  have "hasSubmittedGift s1 a" and "isParticipant s1 a" by simp_all
  then have "hasSubmittedGift s a \<and> isParticipant s a"
    unfolding assms(2) by (rule run_keeps_flags)
  then show ?thesis by (simp add: submitGift_def)
qed

text \<open>
  Participant 1 has submitted and the game is in phase WaitingReveal: the second call fails
  with the wrong-phase error, not the duplicate-submission error.
\<close>

theorem C6_counterexample:
  "hasSubmittedGift gameWaiting 1 \<and>
   submitGift acceptAll 1 200 7 [] ''ipfs://again'' gameWaiting = Inl InvalidPhase \<and>
   submitGift acceptAll 1 200 7 [] ''ipfs://again'' gameWaiting \<noteq> Inl AlreadySubmittedGift"
  by (simp add: submitGift_def gameWaiting_def)

text \<open>
  Participant 3 submits the last gift at time 200, the phase becomes WaitingReveal, and the
  same participant tries again.
\<close>

theorem C6_witness:
  "submitGift acceptAll 3 200 7 [] ''ipfs://QmTest'' gameSubmission
     = Inr (projr (submitGift acceptAll 3 200 7 [] ''ipfs://QmTest'' gameSubmission)) \<and>
   submitGift acceptAll 3 201 8 [] ''ipfs://again''
     (projr (submitGift acceptAll 3 200 7 [] ''ipfs://QmTest'' gameSubmission))
     = Inl InvalidPhase"
proof -
  let ?s1 = "projr (submitGift acceptAll 3 200 7 [] ''ipfs://QmTest'' gameSubmission)"
  have h: "submitGift acceptAll 3 200 7 [] ''ipfs://QmTest'' gameSubmission = Inr ?s1"
    by (simp add: submitGift_def acceptAll_def checked_add_def gameSubmission_def
          gameWaiting_def Let_def)
  have r: "?s1 = run acceptAll [] ?s1" by simp
  have ph: "currentPhase ?s1 = WaitingReveal"
    by (simp add: submitGift_def acceptAll_def checked_add_def gameSubmission_def
          gameWaiting_def Let_def)
  from C6_second_submitGift [OF h r, of 201 8 "[]" "''ipfs://again''"] h ph
  show ?thesis by simp
qed

section \<open>Order of the checks\<close>

text \<open>
  Claim C7, as amended. In the wrong phase, \<open>register\<close> fails with the wrong-phase error
  whatever else holds. The other four operations check the caller first: \<open>startMatching\<close>
  and \<open>triggerReveal\<close> give the not-the-owner error to any caller other than the owner, and
  \<open>submitGift\<close> and \<open>getMyRecipientEncrypted\<close> give the not-registered error to any caller
  who is not a participant; \<open>getMyRecipientEncrypted\<close> next checks that the matching was
  generated. A caller who passes these checks in the wrong phase receives the wrong-phase
  error (for \<open>triggerReveal\<close> and \<open>getMyRecipientEncrypted\<close>, the \<open>require\<close> message about
  the phase).
\<close>

theorem C7_wrong_phase_errors:
  "(currentPhase s \<noteq> Registration \<longrightarrow>
      register sender val now s = Inl InvalidPhase) \<and>
   (currentPhase s \<noteq> Registration \<longrightarrow>
      startMatching sender now rawOffset s =
        Inl (if sender \<noteq> owner s then OnlyOwner else InvalidPhase)) \<and>
   (currentPhase s \<noteq> GiftSubmission \<longrightarrow>
      submitGift fx sender now v p u s =
        Inl (if \<not> isParticipant s sender then NotRegistered else InvalidPhase)) \<and>
   (currentPhase s \<noteq> GiftSubmission \<and> currentPhase s \<noteq> WaitingReveal \<longrightarrow>
      getMyRecipientEncrypted sender s =
        Inl (if \<not> isParticipant s sender then NotRegistered
             else if \<not> matchingGenerated s then Require ''Matching not yet generated''
             else Require ''Cannot query recipient in this phase'')) \<and>
   (currentPhase s \<noteq> WaitingReveal \<longrightarrow>
      triggerReveal sender now d s =
        Inl (if sender \<noteq> owner s then OnlyOwner else Require ''Not ready for reveal''))"
  by (simp add: register_def startMatching_def submitGift_def getMyRecipientEncrypted_def
        triggerReveal_def)

text \<open>
  In phase Registration, address 9 is not registered and calls \<open>submitGift\<close>: the error is
  the not-registered error, not the wrong-phase error. Likewise \<open>startMatching\<close> called by
  participant 1 in phase Revealed gives the not-the-owner error.
\<close>

theorem C7_counterexample:
  "currentPhase gameRegistration \<noteq> GiftSubmission \<and>
   submitGift acceptAll 9 10 7 [] ''ipfs://QmTest'' gameRegistration = Inl NotRegistered \<and>
   submitGift acceptAll 9 10 7 [] ''ipfs://QmTest'' gameRegistration \<noteq> Inl InvalidPhase \<and>
   currentPhase gameRevealed \<noteq> Registration \<and>
   startMatching 1 400 6 gameRevealed = Inl OnlyOwner"
  by (simp add: submitGift_def startMatching_def gameRegistration_def gameRevealed_def
        gameWaiting_def)

text \<open>
  Phase Revealed is the wrong phase for all five operations; the operator 100 and the
  participant 1 pass the caller checks and receive the wrong-phase errors.
\<close>

theorem C7_witness:
  "currentPhase gameRevealed \<noteq> Registration \<and>
   currentPhase gameRevealed \<noteq> GiftSubmission \<and>
   currentPhase gameRevealed \<noteq> WaitingReveal \<and>
   register 9 1 10 gameRevealed = Inl InvalidPhase \<and>
   startMatching 100 400 6 gameRevealed = Inl InvalidPhase \<and>
   submitGift acceptAll 1 200 7 [] ''ipfs://QmTest'' gameRevealed = Inl InvalidPhase \<and>
   getMyRecipientEncrypted 1 gameRevealed = Inl (Require ''Cannot query recipient in this phase'') \<and>
   triggerReveal 100 400 1 gameRevealed = Inl (Require ''Not ready for reveal'')"
proof -
  have ph: "currentPhase gameRevealed = Revealed"
    and ow: "owner gameRevealed = 100"
    and p1: "isParticipant gameRevealed 1"
    and mg: "matchingGenerated gameRevealed"
    by (simp_all add: gameRevealed_def gameWaiting_def)
  from C7_wrong_phase_errors
    [of gameRevealed 9 1 10 6 acceptAll 7 "[]" "''ipfs://QmTest''" 1]
  have "register 9 1 10 gameRevealed = Inl InvalidPhase"
    using ph by simp
  moreover from C7_wrong_phase_errors
    [of gameRevealed 100 1 400 6 acceptAll 7 "[]" "''ipfs://QmTest''" 1]
  have "startMatching 100 400 6 gameRevealed = Inl InvalidPhase"
    and "triggerReveal 100 400 1 gameRevealed = Inl (Require ''Not ready for reveal'')"
    using ph ow by simp_all
  moreover from C7_wrong_phase_errors
    [of gameRevealed 1 1 200 6 acceptAll 7 "[]" "''ipfs://QmTest''" 1]
  have "submitGift acceptAll 1 200 7 [] ''ipfs://QmTest'' gameRevealed = Inl InvalidPhase"
    and "getMyRecipientEncrypted 1 gameRevealed
           = Inl (Require ''Cannot query recipient in this phase'')"
    using ph p1 mg by simp_all
  ultimately show ?thesis using ph by simp
qed

section \<open>Properties of the reveal\<close>

text \<open>
  Claim C4. A \<open>triggerReveal\<close> call made before the reveal time fails, whoever calls. In a
  state of the invariant in phase WaitingReveal, the operator's call at or after the reveal
  time succeeds; the new state is in phase Revealed, it records for every index \<open>i\<close> below
  the participant count the participant at index \<open>(i + offset) mod count\<close> as the revealed
  recipient of the participant at index \<open>i\<close>, and every later \<open>triggerReveal\<close>, after any
  further calls to the contract, fails.
\<close>

theorem C4_triggerReveal:
  assumes "game_inv s"
  shows "(now < revealTime s \<longrightarrow> isl (triggerReveal sender now d s)) \<and>
         (currentPhase s = WaitingReveal \<and> revealTime s \<le> now \<longrightarrow>
            (\<exists>s'. triggerReveal (owner s) now d s = Inr s' \<and>
                  currentPhase s' = Revealed \<and>
                  participants s' = participants s \<and>
                  participantCount s' = participantCount s \<and>
                  (\<forall>i < unat (participantCount s).
                     revealedRecipients s' (participants s ! i) =
                       participants s ! ((i + unat d) mod unat (participantCount s))) \<and>
                  (\<forall>cs sender' now' d'. isl (triggerReveal sender' now' d' (run fx cs s')))))"
proof (intro conjI impI)
  assume "now < revealTime s"
  then have "\<not> revealTime s \<le> now" by simp
  then show "isl (triggerReveal sender now d s)"
    by (simp add: triggerReveal_def)
next
  assume pre: "currentPhase s = WaitingReveal \<and> revealTime s \<le> now"
  have len: "length (participants s) = unat (participantCount s)"
    using assms by (simp add: game_inv_def)
  from triggerReveal_ok [OF assms, of now d] pre
  obtain s' where run: "triggerReveal (owner s) now d s = Inr s'"
    and fields: "s' = s\<lparr> currentPhase := Revealed, revealedOffset := d,
                    revealedRecipients := revealedRecipients s', events := events s' \<rparr>"
    and rec: "\<forall>j < length (participants s).
              revealedRecipients s' (participants s ! j) =
                participants s ! ((j + unat d) mod length (participants s))"
    by blast
  have ph: "currentPhase s' = Revealed" by (subst fields) simp
  have ps: "participants s' = participants s" by (subst fields) simp
  have pc: "participantCount s' = participantCount s" by (subst fields) simp
  have again: "\<forall>cs sender' now' d'. isl (triggerReveal sender' now' d' (run fx cs s'))"
    using run_keeps_Revealed [OF ph, of fx] by (simp add: triggerReveal_def)
  show "\<exists>s'. triggerReveal (owner s) now d s = Inr s' \<and>
              currentPhase s' = Revealed \<and>
              participants s' = participants s \<and>
              participantCount s' = participantCount s \<and>
              (\<forall>i < unat (participantCount s).
                 revealedRecipients s' (participants s ! i) =
                   participants s ! ((i + unat d) mod unat (participantCount s))) \<and>
              (\<forall>cs sender' now' d'. isl (triggerReveal sender' now' d' (run fx cs s')))"
    using run ph ps pc rec again len by auto
qed

text \<open>
  The scenario of the specification: at the reveal time 360 the operator reveals with
  offset 1, and 1 gives to 2, 2 to 3, 3 to 1; one second earlier the call fails.
\<close>

theorem C4_witness:
  "game_inv gameWaiting \<and>
   isl (triggerReveal 100 359 1 gameWaiting) \<and>
   (\<exists>s'. triggerReveal 100 360 1 gameWaiting = Inr s' \<and>
         currentPhase s' = Revealed \<and>
         revealedRecipients s' 1 = 2 \<and>
         revealedRecipients s' 2 = 3 \<and>
         revealedRecipients s' 3 = 1 \<and>
         isl (triggerReveal 100 361 1 s'))"
proof -
  have f: "owner gameWaiting = 100" "revealTime gameWaiting = 360"
    "currentPhase gameWaiting = WaitingReveal" "participants gameWaiting = [1, 2, 3]"
    "unat (participantCount gameWaiting) = 3"
    by (simp_all add: gameWaiting_def)
  have early: "(359::uint256) < revealTime gameWaiting" by (simp add: f)
  have late: "currentPhase gameWaiting = WaitingReveal \<and> revealTime gameWaiting \<le> 360"
    by (simp add: f)
  note c4 = C4_triggerReveal [OF inv_waiting]
  from c4 [of 359 100 1] early have a: "isl (triggerReveal 100 359 1 gameWaiting)"
    by blast
  from c4 [of 360 100 1 acceptAll] late obtain s' where
    run: "triggerReveal (owner gameWaiting) 360 1 gameWaiting = Inr s'" and
    ph: "currentPhase s' = Revealed" and
    rec: "\<forall>i < unat (participantCount gameWaiting).
            revealedRecipients s' (participants gameWaiting ! i) =
              participants gameWaiting ! ((i + unat (1::uint32)) mod unat (participantCount gameWaiting))" and
    again: "\<forall>cs sender' now' d'. isl (triggerReveal sender' now' d' (run acceptAll cs s'))"
    by blast
  from again [rule_format, of 100 361 1 "[]"] have ag: "isl (triggerReveal 100 361 1 s')" by simp
  from rec [rule_format, of 0] have r1: "revealedRecipients s' 1 = 2" by (simp add: f)
  from rec [rule_format, of 1] have r2: "revealedRecipients s' 2 = 3" by (simp add: f)
  from rec [rule_format, of 2] have r3: "revealedRecipients s' 3 = 1" by (simp add: f)
  show ?thesis
    using inv_waiting a run ph r1 r2 r3 ag by (auto simp: f)
qed

text \<open>
  Claim C9. \<open>triggerReveal\<close> does not validate the offset the operator supplies. In a state
  of the invariant in phase WaitingReveal, at or after the reveal time, for every 32-bit
  offset whose remainder modulo the participant count is 0 (the offset 0 included) the
  operator's call succeeds, stores that offset, and records every participant as their own
  revealed recipient.
\<close>

theorem C9_reveal_accepts_identity_offset:
  assumes "game_inv s" and "currentPhase s = WaitingReveal" and "revealTime s \<le> now"
    and "unat d mod unat (participantCount s) = 0"
  shows "\<exists>s'. triggerReveal (owner s) now d s = Inr s' \<and>
              currentPhase s' = Revealed \<and>
              revealedOffset s' = d \<and>
              participants s' = participants s \<and>
              (\<forall>a. isParticipant s' a \<longrightarrow> revealedRecipients s' a = a)"
proof -
  have len: "length (participants s) = unat (participantCount s)"
    and mem: "\<forall>a. isParticipant s a \<longleftrightarrow> a \<in> set (participants s)"
    using assms(1) by (simp_all add: game_inv_def)
  from triggerReveal_ok [OF assms(1-3), of d]
  obtain s' where run: "triggerReveal (owner s) now d s = Inr s'"
    and fields: "s' = s\<lparr> currentPhase := Revealed, revealedOffset := d,
                    revealedRecipients := revealedRecipients s', events := events s' \<rparr>"
    and rec: "\<forall>j < length (participants s).
              revealedRecipients s' (participants s ! j) =
                participants s ! ((j + unat d) mod length (participants s))"
    by blast
  have ph: "currentPhase s' = Revealed" by (subst fields) simp
  have ro: "revealedOffset s' = d" by (subst fields) simp
  have ps: "participants s' = participants s" by (subst fields) simp
  have ip: "isParticipant s' = isParticipant s" by (subst fields) simp
  have self: "revealedRecipients s' a = a" if "isParticipant s' a" for a
  proof -
    from that ip mem have "a \<in> set (participants s)" by simp
    then obtain j where j: "j < length (participants s)" "participants s ! j = a"
      by (auto simp: in_set_conv_nth)
    have "(j + unat d) mod length (participants s) = j"
      using j(1) assms(4) len by (simp add: mod_add_right_eq [symmetric])
    with rec j show ?thesis by auto
  qed
  show ?thesis
    using run ph ro ps self by blast
qed

text \<open>With three participants the offset 3 is accepted and everyone is matched to themselves.\<close>

theorem C9_witness:
  "game_inv gameWaiting \<and> currentPhase gameWaiting = WaitingReveal \<and>
   revealTime gameWaiting \<le> 360 \<and>
   unat (3::uint32) mod unat (participantCount gameWaiting) = 0 \<and>
   (\<exists>s'. triggerReveal 100 360 3 gameWaiting = Inr s' \<and>
         revealedRecipients s' 1 = 1 \<and>
         revealedRecipients s' 2 = 2 \<and>
         revealedRecipients s' 3 = 3)"
proof -
  have f: "owner gameWaiting = 100" "revealTime gameWaiting = 360"
    "currentPhase gameWaiting = WaitingReveal" "isParticipant gameWaiting 1"
    "isParticipant gameWaiting 2" "isParticipant gameWaiting 3"
    "unat (participantCount gameWaiting) = 3"
    by (simp_all add: gameWaiting_def)
  have h2: "currentPhase gameWaiting = WaitingReveal" by (simp add: f)
  have h3: "revealTime gameWaiting \<le> 360" by (simp add: f)
  have h4: "unat (3::uint32) mod unat (participantCount gameWaiting) = 0" by (simp add: f)
  from C9_reveal_accepts_identity_offset [OF inv_waiting h2 h3 h4]
  obtain s' where run: "triggerReveal (owner gameWaiting) 360 3 gameWaiting = Inr s'"
    and self: "\<forall>a. isParticipant s' a \<longrightarrow> revealedRecipients s' a = a"
    by blast
  from run have "isParticipant s' = isParticipant gameWaiting"
    by (auto simp: triggerReveal_def split: if_splits sum.splits dest!: revealLoop_flags)
  with self f have "revealedRecipients s' 1 = 1" "revealedRecipients s' 2 = 2"
    "revealedRecipients s' 3 = 3"
    by simp_all
  with run show ?thesis
    using inv_waiting h2 h3 h4 by (auto simp: f)
qed

section \<open>The automatic advance to WaitingReveal\<close>






section \<open>The circular shift\<close>

lemma shift_mod_if:
  fixes i k n :: nat
  assumes "i < n" "k < n"
  shows "(i + k) mod n = (if i + k < n then i + k else i + k - n)"
proof (cases "i + k < n")
  case True
  then show ?thesis by simp
next
  case False
  then have "(i + k) mod n = (i + k - n) mod n" by (simp add: le_mod_geq)
  moreover have "i + k - n < n" using assms by linarith
  ultimately show ?thesis using False by simp
qed

lemma shift_ne:
  fixes i k n :: nat
  assumes "i < n" "1 \<le> k" "k < n"
  shows "(i + k) mod n \<noteq> i"
proof (cases "i + k < n")
  case True
  with assms show ?thesis by simp
next
  case False
  with assms have "(i + k) mod n = i + k - n" by (simp add: shift_mod_if)
  with assms False show ?thesis by linarith
qed


lemma unat_ucast_256_32:
  assumes "unat (n::uint256) < 2 ^ 32"
  shows "unat (ucast n :: uint32) = unat n"
  using assms by (simp add: unsigned_ucast_eq take_bit_nat_eq_self)

lemma recipientIndexEnc_eq:
  assumes "i < n" "unat n \<le> 2 ^ 31" "unat off < unat n"
  shows "\<exists>q. recipientIndexEnc i off n = Inr q \<and> unat q = (unat i + unat off) mod unat n"
proof -
  have iu: "unat i < unat n" using assms(1) by (simp add: word_less_nat_alt)
  have n32: "unat n < 2 ^ 32" using assms(2) by simp
  have i32: "unat i < 2 ^ 32" using iu n32 by simp
  have un: "unat (ucast n :: uint32) = unat n" using n32 by (rule unat_ucast_256_32)
  have ui: "unat (ucast i :: uint32) = unat i" using i32 by (rule unat_ucast_256_32)
  have "unat n \<noteq> 0" using iu by simp
  then have nz: "(ucast n :: uint32) \<noteq> 0" using un by (metis unat_0)
  have "unat i + unat off < 2 ^ 32" using iu assms(2,3) by simp
  then have "unat (ucast i :: uint32) + unat off < 2 ^ LENGTH(32)" using ui by simp
  then have "unat ((ucast i :: uint32) + off) = unat (ucast i :: uint32) + unat off"
    by (simp only: unat_add_lem)
  then have us: "unat ((ucast i :: uint32) + off) = unat i + unat off" using ui by simp
  show ?thesis
    using nz us un
    by (simp add: recipientIndexEnc_def FHE_rem_def FHE_add_def FHE_asEuint32_def unat_mod)
qed






section \<open>The recipient query in reachable states\<close>

lemma reachable_inv:
  assumes "constructor sender now rp gp rdl fee minP maxP = Inr s0"
  shows "game_inv (run fx cs s0)"
  using assms by (intro game_inv_run game_inv_constructor)

lemma participantIndex_nth:
  assumes inv: "game_inv s" and i: "i < length (participants s)"
  shows "unat (participantIndex s (participants s ! i)) = i"
proof -
  let ?a = "participants s ! i"
  have dist: "distinct (participants s)" using inv by (simp add: game_inv_def)
  have "?a \<in> set (participants s)" using i by simp
  then have "isParticipant s ?a" using inv by (simp add: game_inv_def)
  then have "array_get (participants s) (participantIndex s ?a) = Inr ?a"
    using inv by (simp add: game_inv_def)
  then have "unat (participantIndex s ?a) < length (participants s)"
    and "participants s ! unat (participantIndex s ?a) = ?a"
    by (auto simp: array_get_def split: if_splits)
  with dist i show ?thesis by (simp add: nth_eq_iff_index_eq)
qed

lemma query_gives_shifted_index:
  assumes inv: "game_inv s"
    and ph: "currentPhase s = GiftSubmission \<or> currentPhase s = WaitingReveal"
    and i: "i < length (participants s)"
  shows "\<exists>q. getMyRecipientEncrypted (participants s ! i) s = Inr q \<and>
             unat q = (i + unat (encryptedMatchingOffset s)) mod unat (participantCount s) \<and>
             unat q \<noteq> i \<and> unat q < length (participants s)"
proof -
  let ?a = "participants s ! i"
  let ?n = "participantCount s"
  have len: "length (participants s) = unat ?n" using inv by (simp add: game_inv_def)
  have "?a \<in> set (participants s)" using i by simp
  then have isp: "isParticipant s ?a" using inv by (simp add: game_inv_def)
  have mg: "matchingGenerated s" using inv ph by (auto simp: game_inv_def)
  then have o1: "1 \<le> unat (encryptedMatchingOffset s)"
    and o2: "unat (encryptedMatchingOffset s) < unat ?n"
    using inv by (simp_all add: game_inv_def)
  have "?n \<le> 256" using inv unfolding game_inv_def by (meson order_trans)
  then have "unat ?n \<le> 256" by (simp add: word_le_nat_alt)
  then have nb: "unat ?n \<le> 2 ^ 31" by simp
  have idx: "unat (participantIndex s ?a) = i" using inv i by (rule participantIndex_nth)
  then have lt: "participantIndex s ?a < ?n" using i len by (simp add: word_less_nat_alt)
  from recipientIndexEnc_eq [OF lt nb o2]
  obtain q where q: "recipientIndexEnc (participantIndex s ?a) (encryptedMatchingOffset s) ?n = Inr q"
    and qu: "unat q = (i + unat (encryptedMatchingOffset s)) mod unat ?n"
    using idx by auto
  have run: "getMyRecipientEncrypted ?a s = Inr q"
    using isp mg ph q by (auto simp: getMyRecipientEncrypted_def)
  have ne: "unat q \<noteq> i"
    unfolding qu using i o1 o2 len by (intro shift_ne) simp_all
  have "0 < unat ?n" using i len by linarith
  then have "unat q < unat ?n" unfolding qu by (rule mod_less_divisor)
  with run qu ne len show ?thesis by auto
qed

section \<open>How the raw values are distributed over the offsets\<close>

lemma nat_mod_sub:
  fixes r c m :: nat
  assumes "c \<le> r mod m"
  shows "(r - c) mod m = r mod m - c"
proof -
  have "r = r div m * m + r mod m" by simp
  then have "r - c = r div m * m + (r mod m - c)" using assms by linarith
  then have "(r - c) mod m = (r mod m - c) mod m" by (metis mod_mult_self3)
  moreover have "r mod m - c < m \<or> m = 0"
    by (metis less_imp_diff_less mod_less_divisor neq0_conv)
  ultimately show ?thesis using assms by auto
qed

lemma nat_mod_sub_wrap:
  fixes r a b m :: nat
  assumes "r mod m = a" "r \<noteq> a" "a \<le> b" "b < m"
  shows "m - (b - a) \<le> r \<and> (r - (m - (b - a))) mod m = b"
proof -
  have dec: "r = r div m * m + a" using assms(1) by (metis div_mult_mod_eq)
  have "r div m \<noteq> 0" using dec assms(2) by (metis add_0 mult_0)
  then obtain k where k: "r div m = Suc k" by (cases "r div m") auto
  have r: "r = k * m + m + a" using dec k by simp
  have le: "m - (b - a) \<le> r" using r by linarith
  have "r - (m - (b - a)) = k * m + b" using r assms(3,4) by linarith
  then have "(r - (m - (b - a))) mod m = b mod m" by simp
  with assms(4) le show ?thesis by simp
qed


lemma word_mod_sub:
  fixes r c m :: uint32
  assumes "c \<le> r mod m"
  shows "(r - c) mod m = r mod m - c"
proof -
  have cm: "unat c \<le> unat r mod unat m"
    using assms by (simp add: word_le_nat_alt unat_mod)
  also have "\<dots> \<le> unat r" by simp
  finally have "c \<le> r" by (simp add: word_le_nat_alt)
  then have s1: "unat (r - c) = unat r - unat c" by (rule unat_sub)
  have s2: "unat (r mod m - c) = unat (r mod m) - unat c" using assms by (rule unat_sub)
  have "unat ((r - c) mod m) = (unat r - unat c) mod unat m"
    by (simp add: unat_mod s1)
  also have "\<dots> = unat r mod unat m - unat c" using cm by (rule nat_mod_sub)
  also have "\<dots> = unat (r mod m - c)" by (simp add: s2 unat_mod)
  finally show ?thesis by (simp add: word_unat_eq_iff)
qed

lemma card_residue_mono:
  fixes a b m :: uint32
  assumes "b \<le> a"
  shows "card {r. r mod m = a} \<le> card {r. r mod m = b}"
proof -
  let ?f = "\<lambda>r::uint32. r - (a - b)"
  have le: "a - b \<le> a" using assms by (rule word_sub_le)
  have "?f ` {r. r mod m = a} \<subseteq> {r. r mod m = b}"
  proof
    fix x assume "x \<in> ?f ` {r. r mod m = a}"
    then obtain r where r: "r mod m = a" and x: "x = r - (a - b)" by auto
    from le r have "a - b \<le> r mod m" by simp
    then have "(r - (a - b)) mod m = r mod m - (a - b)" by (rule word_mod_sub)
    then show "x \<in> {r. r mod m = b}" using r x by simp
  qed
  then have "card (?f ` {r. r mod m = a}) \<le> card {r. r mod m = b}"
    by (simp add: card_mono)
  moreover have "inj_on ?f {r. r mod m = a}" by (simp add: inj_on_def)
  then have "card (?f ` {r. r mod m = a}) = card {r. r mod m = a}" by (rule card_image)
  ultimately show ?thesis by simp
qed

lemma card_residue_wrap:
  fixes a b m :: uint32
  assumes ab: "a \<le> b" and bm: "b < m"
  shows "card {r. r mod m = a} \<le> card {r. r mod m = b} + 1"
proof -
  let ?c = "m - (b - a)"
  let ?f = "\<lambda>r::uint32. r - ?c"
  have ba: "unat (b - a) = unat b - unat a" using ab by (rule unat_sub)
  have "b - a \<le> b" using ab by (rule word_sub_le)
  then have "b - a \<le> m" using bm by simp
  then have cu: "unat ?c = unat m - (unat b - unat a)" by (simp add: unat_sub ba)
  have abu: "unat a \<le> unat b" using ab by (simp add: word_le_nat_alt)
  have bmu: "unat b < unat m" using bm by (simp add: word_less_nat_alt)
  have "?f ` ({r. r mod m = a} - {a}) \<subseteq> {r. r mod m = b}"
  proof
    fix x assume "x \<in> ?f ` ({r. r mod m = a} - {a})"
    then obtain r where r: "r mod m = a" and ne: "r \<noteq> a" and x: "x = r - ?c" by auto
    have "unat r mod unat m = unat a" using r by (metis unat_mod)
    moreover have "unat r \<noteq> unat a" using ne by (simp add: word_unat_eq_iff)
    ultimately have w: "unat m - (unat b - unat a) \<le> unat r \<and>
        (unat r - (unat m - (unat b - unat a))) mod unat m = unat b"
      using abu bmu by (rule nat_mod_sub_wrap)
    then have "?c \<le> r" using cu by (simp add: word_le_nat_alt)
    then have "unat (r - ?c) = unat r - unat ?c" by (rule unat_sub)
    then have "unat ((r - ?c) mod m) = unat b" using w cu by (simp add: unat_mod)
    then have "(r - ?c) mod m = b" by (simp add: word_unat_eq_iff)
    then show "x \<in> {r. r mod m = b}" using x by simp
  qed
  then have "card (?f ` ({r. r mod m = a} - {a})) \<le> card {r. r mod m = b}"
    by (simp add: card_mono)
  moreover have "inj_on ?f ({r. r mod m = a} - {a})" by (simp add: inj_on_def)
  then have "card (?f ` ({r. r mod m = a} - {a})) = card ({r. r mod m = a} - {a})"
    by (rule card_image)
  moreover have "card {r. r mod m = a} \<le> card (insert a {r. r mod m = a})"
    by (simp add: card_insert_le)
  moreover have "card (insert a {r. r mod m = a}) = Suc (card ({r. r mod m = a} - {a}))"
    by (simp add: card.insert_remove)
  ultimately show ?thesis by simp
qed

lemma matchingOffset_value:
  assumes "(ucast n :: uint32) \<noteq> 0"
  shows "matchingOffset r n = Inr (FHE_select (FHE_eq (r mod ucast n) 0) 1 (r mod ucast n))"
  using assms
  by (simp only: matchingOffset_def FHE_rem_def FHE_asEuint32_def Let_def if_False sum.case)

lemma rawInputsFor_eq:
  assumes "(ucast n :: uint32) \<noteq> 0"
  shows "rawInputsFor n off =
           {r. (if r mod ucast n = 0 then 1 else r mod ucast n) = off}"
  by (simp only: rawInputsFor_def matchingOffset_value [OF assms] FHE_select_def FHE_eq_def
        sum.inject)

lemma rawInputsFor_other:
  assumes "(ucast n :: uint32) \<noteq> 0" "2 \<le> unat off"
  shows "rawInputsFor n off = {r. r mod ucast n = off}"
proof -
  have "off \<noteq> 1" "off \<noteq> 0" using assms(2) by auto
  then have "((if x = 0 then 1 else x) = off) = (x = off)" for x :: uint32 by auto
  then show ?thesis
    by (simp only: rawInputsFor_eq [OF assms(1)])
qed

lemma rawInputsFor_one:
  assumes "(ucast n :: uint32) \<noteq> 0"
  shows "rawInputsFor n 1 = {r. r mod ucast n = 0} \<union> {r. r mod ucast n = 1}"
proof -
  have "((if x = 0 then 1 else x) = 1) = (x = 0 \<or> x = 1)" for x :: uint32 by auto
  then show ?thesis
    by (simp only: rawInputsFor_eq [OF assms] Collect_disj_eq)
qed

lemma card_rawInputsFor_one:
  assumes "(ucast n :: uint32) \<noteq> 0"
  shows "card (rawInputsFor n 1) =
           card {r::uint32. r mod ucast n = 0} + card {r::uint32. r mod ucast n = 1}"
proof -
  have "{r::uint32. r mod ucast n = 0} \<inter> {r. r mod ucast n = 1} = {}"
  proof (rule equals0I)
    fix y :: uint32
    assume "y \<in> {r. r mod ucast n = 0} \<inter> {r. r mod ucast n = 1}"
    then have "y mod ucast n = 0 \<and> y mod ucast n = 1"
      by blast
    then show False by (metis zero_neq_one)
  qed
  moreover have "finite {r::uint32. r mod ucast n = 0}" "finite {r::uint32. r mod ucast n = 1}"
    by (rule finite)+
  ultimately show ?thesis
    by (simp only: rawInputsFor_one [OF assms] card_Un_disjoint)
qed

lemma ucast_count_nz:
  assumes "1 \<le> unat (n::uint256)" "unat n < 2 ^ 32"
  shows "(ucast n :: uint32) \<noteq> 0"
proof
  assume "(ucast n :: uint32) = 0"
  then have "unat (ucast n :: uint32) = 0" by (simp only: unat_0)
  then have "unat n = 0" using unat_ucast_256_32 [OF assms(2)] by (simp only:)
  with assms(1) show False by linarith
qed

lemma residue_zero_nonempty:
  "0 < card {r::uint32. r mod m = 0}"
proof -
  have "(0::uint32) mod m = 0" by (rule mod_0)
  then have mem: "(0::uint32) \<in> {r. r mod m = 0}" by (rule CollectI)
  have ne: "{r::uint32. r mod m = 0} \<noteq> {}"
  proof
    assume e: "{r::uint32. r mod m = 0} = {}"
    from mem have "(0::uint32) \<in> {}" by (simp only: e)
    then show False by (rule emptyE)
  qed
  moreover have "finite {r::uint32. r mod m = 0}" by (rule finite)
  ultimately have "{r::uint32. r mod m = 0} \<noteq> {} \<and> finite {r::uint32. r mod m = 0}"
    by (rule conjI)
  then show ?thesis by (rule card_gt_0_iff [THEN iffD2])
qed

lemma favoured_arith:
  fixes x y z :: nat
  assumes "x \<le> y" "y \<le> z" "0 < z"
  shows "x < z + y \<and> 2 * x \<le> z + y"
  using assms by linarith

lemma offset_one_favoured:
  assumes n3: "3 \<le> unat n" and nb: "unat n < 2 ^ 32"
    and o2: "2 \<le> unat off" and on: "unat off < unat n"
  shows "card (rawInputsFor n off) < card (rawInputsFor n 1) \<and>
         2 * card (rawInputsFor n off) \<le> card (rawInputsFor n 1)"
proof -
  let ?m = "ucast n :: uint32"
  have "1 \<le> unat n" using n3 by linarith
  then have nz: "?m \<noteq> 0" using nb by (rule ucast_count_nz)
  have "unat (1::uint32) \<le> unat off" using o2 by simp
  then have "(1::uint32) \<le> off" by (simp only: word_le_nat_alt)
  then have a: "card {r. r mod ?m = off} \<le> card {r. r mod ?m = 1}"
    by (rule card_residue_mono)
  have "(0::uint32) \<le> 1" by (rule word_zero_le)
  then have b: "card {r. r mod ?m = 1} \<le> card {r. r mod ?m = 0}"
    by (rule card_residue_mono)
  have c: "0 < card {r. r mod ?m = 0}" by (rule residue_zero_nonempty)
  have s: "card (rawInputsFor n off) = card {r. r mod ?m = off}"
    by (simp only: rawInputsFor_other [OF nz o2])
  have t: "card (rawInputsFor n 1) = card {r. r mod ?m = 0} + card {r. r mod ?m = 1}"
    by (rule card_rawInputsFor_one [OF nz])
  show ?thesis
    unfolding s t using a b c by (rule favoured_arith)
qed

lemma offsets_above_one_balanced:
  assumes n3: "3 \<le> unat n" and nb: "unat n < 2 ^ 32"
    and o1: "2 \<le> unat off1" and o12: "unat off1 \<le> unat off2" and on: "unat off2 < unat n"
  shows "card (rawInputsFor n off2) \<le> card (rawInputsFor n off1) \<and>
         card (rawInputsFor n off1) \<le> card (rawInputsFor n off2) + 1"
proof -
  let ?m = "ucast n :: uint32"
  have um: "unat ?m = unat n" using nb by (rule unat_ucast_256_32)
  have "1 \<le> unat n" using n3 by linarith
  then have nz: "?m \<noteq> 0" using nb by (rule ucast_count_nz)
  have o2: "2 \<le> unat off2" using o1 o12 by linarith
  have le: "off1 \<le> off2" using o12 by (simp only: word_le_nat_alt)
  have "unat off2 < unat ?m" using on by (simp only: um)
  then have lt: "off2 < ?m" by (simp only: word_less_nat_alt)
  have x: "card {r. r mod ?m = off2} \<le> card {r. r mod ?m = off1}"
    using le by (rule card_residue_mono)
  have y: "card {r. r mod ?m = off1} \<le> card {r. r mod ?m = off2} + 1"
    using le lt by (rule card_residue_wrap)
  have s1: "card (rawInputsFor n off1) = card {r. r mod ?m = off1}"
    by (simp only: rawInputsFor_other [OF nz o1])
  have s2: "card (rawInputsFor n off2) = card {r. r mod ?m = off2}"
    by (simp only: rawInputsFor_other [OF nz o2])
  show ?thesis
    unfolding s1 s2 using x y by (rule conjI)
qed

text \<open>
  Claim C3, as amended. The offset is not uniform over \<open>[1, n-1]\<close> once there are three
  participants or more: the raw values with remainder 0 and those with remainder 1 are both
  sent to offset 1, and every other offset receives the raw values of one remainder only.
  For every count \<open>n \<ge> 3\<close> and every offset \<open>o\<close> in \<open>[2, n-1]\<close>, offset 1 is produced by
  strictly more 32-bit raw values than \<open>o\<close>, in fact by at least twice as many; and for two
  offsets \<open>o1 \<le> o2\<close> in \<open>[2, n-1]\<close> the numbers of raw values differ by at most one, the
  smaller offset never having fewer.
\<close>

theorem C3_offset_distribution:
  assumes "3 \<le> unat n" and "unat n < 2 ^ 32"
  shows "(\<forall>off. 2 \<le> unat off \<and> unat off < unat n \<longrightarrow>
            card (rawInputsFor n off) < card (rawInputsFor n 1) \<and>
            2 * card (rawInputsFor n off) \<le> card (rawInputsFor n 1)) \<and>
         (\<forall>off1 off2. 2 \<le> unat off1 \<and> unat off1 \<le> unat off2 \<and> unat off2 < unat n \<longrightarrow>
            card (rawInputsFor n off2) \<le> card (rawInputsFor n off1) \<and>
            card (rawInputsFor n off1) \<le> card (rawInputsFor n off2) + 1)"
proof (intro conjI allI impI)
  fix off :: uint32
  assume h: "2 \<le> unat off \<and> unat off < unat n"
  from h have h1: "2 \<le> unat off" and h2: "unat off < unat n" by (rule conjunct1, rule conjunct2)
  from offset_one_favoured [OF assms h1 h2]
  show "card (rawInputsFor n off) < card (rawInputsFor n 1)" by (rule conjunct1)
  from offset_one_favoured [OF assms h1 h2]
  show "2 * card (rawInputsFor n off) \<le> card (rawInputsFor n 1)" by (rule conjunct2)
next
  fix off1 off2 :: uint32
  assume h: "2 \<le> unat off1 \<and> unat off1 \<le> unat off2 \<and> unat off2 < unat n"
  from h have h1: "2 \<le> unat off1" by (rule conjunct1)
  from h have h2: "unat off1 \<le> unat off2" by (rule conjunct2 [THEN conjunct1])
  from h have h3: "unat off2 < unat n" by (rule conjunct2 [THEN conjunct2])
  from offsets_above_one_balanced [OF assms h1 h2 h3]
  show "card (rawInputsFor n off2) \<le> card (rawInputsFor n off1)" by (rule conjunct1)
  from offsets_above_one_balanced [OF assms h1 h2 h3]
  show "card (rawInputsFor n off1) \<le> card (rawInputsFor n off2) + 1" by (rule conjunct2)
qed

text \<open>
  With three participants the offsets 1 and 2 both lie in \<open>[1, 2]\<close>, and they are not
  produced by the same number of raw values.
\<close>

theorem C3_counterexample:
  "card (rawInputsFor 3 1) \<noteq> card (rawInputsFor 3 2)"
proof -
  have h: "3 \<le> unat (3::uint256)" "unat (3::uint256) < 2 ^ 32"
    "2 \<le> unat (2::uint32)" "unat (2::uint32) < unat (3::uint256)"
    by simp_all
  from offset_one_favoured [OF h]
  have "card (rawInputsFor 3 2) < card (rawInputsFor 3 1)" by (rule conjunct1)
  then show ?thesis by (rule less_imp_neq [THEN not_sym])
qed

text \<open>Seven participants, offsets 2 and 4.\<close>

theorem C3_witness:
  "3 \<le> unat (7::uint256) \<and> unat (7::uint256) < 2 ^ 32 \<and>
   2 \<le> unat (2::uint32) \<and> unat (2::uint32) \<le> unat (4::uint32) \<and>
   unat (4::uint32) < unat (7::uint256) \<and>
   card (rawInputsFor 7 4) < card (rawInputsFor 7 1) \<and>
   card (rawInputsFor 7 4) \<le> card (rawInputsFor 7 2) \<and>
   card (rawInputsFor 7 2) \<le> card (rawInputsFor 7 4) + 1"
proof -
  have h: "3 \<le> unat (7::uint256)" "unat (7::uint256) < 2 ^ 32" by simp_all
  have g1: "2 \<le> unat (4::uint32) \<and> unat (4::uint32) < unat (7::uint256)" by simp
  have g2: "2 \<le> unat (2::uint32) \<and> unat (2::uint32) \<le> unat (4::uint32) \<and>
            unat (4::uint32) < unat (7::uint256)" by simp
  note c3 = C3_offset_distribution [OF h]
  from c3 [THEN conjunct1, rule_format, OF g1]
  have a: "card (rawInputsFor 7 4) < card (rawInputsFor 7 1)" by (rule conjunct1)
  from c3 [THEN conjunct2, rule_format, OF g2]
  have b: "card (rawInputsFor 7 4) \<le> card (rawInputsFor 7 2) \<and>
           card (rawInputsFor 7 2) \<le> card (rawInputsFor 7 4) + 1" .
  from h g2 a b show ?thesis by simp
qed

end
